theory Spec2Isabelle
  imports Main
begin

section \<open>JavaScript strings\<close>

text \<open>
  A JavaScript string is a sequence of UTF-16 code units. The scripts under
  \<^verbatim>\<open>scripts/update-epg.mjs\<close> only compare code units with literals and test them
  against the regular-expression classes \<^verbatim>\<open>\s\<close>, \<^verbatim>\<open>\d\<close> and \<^verbatim>\<open>\w\<close>, so a string is
  modelled as the list of its code units, each a natural number. \<open>js\<close> embeds an
  ASCII literal.
\<close>

type_synonym jsstring = "nat list"

definition js :: "string \<Rightarrow> jsstring" where
  "js s = map of_char s"

text \<open>
  The class \<^verbatim>\<open>\s\<close> and the characters removed by \<^verbatim>\<open>String.prototype.trim\<close> are the
  same set: ECMAScript's WhiteSpace and LineTerminator code points (TAB, LF, VT, FF, CR,
  SP, NBSP, U+1680, U+2000..U+200A, U+2028, U+2029, U+202F, U+205F, U+3000, U+FEFF).
\<close>

definition isSpace :: "nat \<Rightarrow> bool" where
  "isSpace c \<longleftrightarrow>
     c = 9 \<or> c = 10 \<or> c = 11 \<or> c = 12 \<or> c = 13 \<or> c = 32 \<or> c = 160 \<or> c = 5760 \<or>
     (8192 \<le> c \<and> c \<le> 8202) \<or> c = 8232 \<or> c = 8233 \<or> c = 8239 \<or> c = 8287 \<or>
     c = 12288 \<or> c = 65279"

text \<open>\<^verbatim>\<open>\d\<close> is \<^verbatim>\<open>[0-9]\<close> and \<^verbatim>\<open>\w\<close> is \<^verbatim>\<open>[A-Za-z0-9_]\<close>.\<close>

definition isDigit :: "nat \<Rightarrow> bool" where
  "isDigit c \<longleftrightarrow> 48 \<le> c \<and> c \<le> 57"

definition isWord :: "nat \<Rightarrow> bool" where
  "isWord c \<longleftrightarrow> (65 \<le> c \<and> c \<le> 90) \<or> (97 \<le> c \<and> c \<le> 122) \<or> isDigit c \<or> c = 95"

text \<open>\<^verbatim>\<open>s.trim()\<close>: white space is dropped at both ends.\<close>

definition trim :: "jsstring \<Rightarrow> jsstring" where
  "trim s = rev (dropWhile isSpace (rev (dropWhile isSpace s)))"

text \<open>\<^verbatim>\<open>s.slice(a, b)\<close> for \<open>0 \<le> a \<le> b\<close>; indices past the end are clamped.\<close>

definition slice :: "jsstring \<Rightarrow> nat \<Rightarrow> nat \<Rightarrow> jsstring" where
  "slice s a b = take (b - a) (drop a s)"

text \<open>
  \<^verbatim>\<open>String.prototype.toLowerCase\<close> follows the case mappings of the Unicode
  standard, which are no part of the program. The functions that call it take it as a
  parameter \<open>lc\<close>, and what is proved of them holds for every \<open>lc\<close>. \<open>lowerLatin1\<close> is
  the mapping on strings of code units up to U+00FF: the letters of Basic Latin and of
  Latin-1 (U+00C0..U+00DE without the multiplication sign) go to their small letters.
\<close>

type_synonym lowerCase = "jsstring \<Rightarrow> jsstring"

definition lowerUnit :: "nat \<Rightarrow> nat" where
  "lowerUnit c =
     (if 65 \<le> c \<and> c \<le> 90 then c + 32
      else if 192 \<le> c \<and> c \<le> 222 \<and> c \<noteq> 215 then c + 32
      else c)"

definition lowerLatin1 :: lowerCase where
  "lowerLatin1 s = map lowerUnit s"

text \<open>
  \<^verbatim>\<open>toUpperCase\<close> is only applied by the source to a matched time-zone token, whose
  code units are ASCII.
\<close>

definition upperUnit :: "nat \<Rightarrow> nat" where
  "upperUnit c = (if 97 \<le> c \<and> c \<le> 122 then c - 32 else c)"

definition toUpperCase :: "jsstring \<Rightarrow> jsstring" where
  "toUpperCase s = map upperUnit s"

text \<open>
  A literal of a regular expression with the \<^verbatim>\<open>i\<close> flag (and without \<^verbatim>\<open>u\<close>) matches a
  code unit when both have the same upper-case canonical form; a code unit outside
  ASCII never canonicalises to an ASCII one, so for the ASCII patterns of the source
  this is equality up to the case of ASCII letters.
\<close>

definition ciEq :: "nat \<Rightarrow> nat \<Rightarrow> bool" where
  "ciEq p c \<longleftrightarrow> upperUnit p = upperUnit c"

fun ciPrefix :: "jsstring \<Rightarrow> jsstring \<Rightarrow> bool" where
  "ciPrefix [] s = True"
| "ciPrefix (p # ps) [] = False"
| "ciPrefix (p # ps) (c # cs) = (ciEq p c \<and> ciPrefix ps cs)"

section \<open>TagStripper\<close>

text \<open>
  \<^verbatim>\<open>function stripTags(s) { return s.replace(/<[^>]+>/g, "").replace(/\s+/g, " ").trim(); }\<close>

  \<open>tagAt s\<close> tries \<^verbatim>\<open>/<[^>]+>/\<close> at the start of \<open>s\<close> and returns the text after the
  match: a \<^verbatim>\<open><\<close>, at least one code unit other than \<^verbatim>\<open>>\<close>, and the first \<^verbatim>\<open>>\<close>.
  The global replace scans from the left; after a match it goes on behind the match,
  after a failure it keeps the code unit and moves one position on.
\<close>

definition tagAt :: "jsstring \<Rightarrow> jsstring option" where
  "tagAt s =
     (case s of
        [] \<Rightarrow> None
      | c # cs \<Rightarrow>
          if c \<noteq> 60 then None
          else let body = takeWhile (\<lambda>x. x \<noteq> 62) cs;
                   rest = dropWhile (\<lambda>x. x \<noteq> 62) cs
               in if body = [] \<or> rest = [] then None else Some (tl rest))"

lemma tagAt_shorter: "tagAt s = Some r \<Longrightarrow> length r < length s"
proof -
  assume a: "tagAt s = Some r"
  then obtain c cs where s: "s = c # cs" by (cases s) (auto simp: tagAt_def)
  from a s have r: "r = tl (dropWhile (\<lambda>x. x \<noteq> 62) cs)"
    by (auto simp: tagAt_def Let_def split: if_splits)
  have "length (dropWhile (\<lambda>x. x \<noteq> 62) cs) \<le> length cs" by (rule length_dropWhile_le)
  with r s show ?thesis by simp
qed

function removeTags :: "jsstring \<Rightarrow> jsstring" where
  "removeTags [] = []"
| "removeTags (c # cs) =
     (case tagAt (c # cs) of
        Some rest \<Rightarrow> removeTags rest
      | None \<Rightarrow> c # removeTags cs)"
  by pat_completeness auto
termination
  by (relation "measure length") (auto dest: tagAt_shorter)

text \<open>\<^verbatim>\<open>.replace(/\s+/g, " ")\<close>: every maximal run of white space becomes one space.\<close>

function collapseSpaces :: "jsstring \<Rightarrow> jsstring" where
  "collapseSpaces [] = []"
| "collapseSpaces (c # cs) =
     (if isSpace c then 32 # collapseSpaces (dropWhile isSpace cs)
      else c # collapseSpaces cs)"
  by pat_completeness auto
termination
  by (relation "measure length") (auto simp: less_Suc_eq_le length_dropWhile_le)

definition stripTags :: "jsstring \<Rightarrow> jsstring" where
  "stripTags s = trim (collapseSpaces (removeTags s))"

subsection \<open>Strings without a tag, and strings with single spaces\<close>

text \<open>
  \<open>noTag s\<close>: the tag pattern matches nowhere in \<open>s\<close>. \<open>clean s\<close>: every white-space
  code unit of \<open>s\<close> is a space that is not followed by white space.
\<close>

fun noTag :: "jsstring \<Rightarrow> bool" where
  "noTag [] = True"
| "noTag (c # cs) = (tagAt (c # cs) = None \<and> noTag cs)"

fun clean :: "jsstring \<Rightarrow> bool" where
  "clean [] = True"
| "clean (c # cs) =
     (if isSpace c then c = 32 \<and> (cs = [] \<or> \<not> isSpace (hd cs)) \<and> clean cs else clean cs)"

lemma tagAt_None_iff:
  "tagAt (c # cs) = None \<longleftrightarrow> c \<noteq> 60 \<or> cs = [] \<or> hd cs = 62 \<or> 62 \<notin> set cs"
  by (cases cs) (auto simp: tagAt_def Let_def dropWhile_eq_Nil_conv takeWhile_eq_Nil_iff)

lemma set_removeTags: "set (removeTags s) \<subseteq> set s"
proof (induction s rule: removeTags.induct)
  case 1 show ?case by simp
next
  case (2 c cs)
  show ?case
  proof (cases "tagAt (c # cs)")
    case None with 2 show ?thesis by auto
  next
    case (Some r)
    then have "r = tl (dropWhile (\<lambda>x. x \<noteq> 62) cs)"
      by (auto simp: tagAt_def Let_def split: if_splits)
    then have "set r \<subseteq> set cs"
      by (metis list.set_sel(2) set_dropWhileD subsetI tl_Nil)
    with 2 Some show ?thesis by auto
  qed
qed

lemma removeTags_GT: "removeTags (62 # cs) = 62 # removeTags cs"
  by (simp add: tagAt_def)

lemma noTag_removeTags: "noTag (removeTags s)"
proof (induction s rule: removeTags.induct)
  case 1 show ?case by simp
next
  case (2 c cs)
  show ?case
  proof (cases "tagAt (c # cs)")
    case (Some r) with 2 show ?thesis by simp
  next
    case None
    then have "c \<noteq> 60 \<or> cs = [] \<or> hd cs = 62 \<or> 62 \<notin> set cs"
      by (simp add: tagAt_None_iff)
    then have "tagAt (c # removeTags cs) = None"
    proof (elim disjE)
      assume "hd cs = 62"
      show ?thesis
      proof (cases cs)
        case Nil then show ?thesis by (simp add: tagAt_None_iff)
      next
        case (Cons d ds)
        with \<open>hd cs = 62\<close> have "removeTags cs = 62 # removeTags ds"
          by (simp add: tagAt_def)
        then show ?thesis by (simp add: tagAt_None_iff)
      qed
    next
      assume "62 \<notin> set cs"
      with set_removeTags[of cs] have "62 \<notin> set (removeTags cs)" by auto
      then show ?thesis by (simp add: tagAt_None_iff)
    qed (simp_all add: tagAt_None_iff)
    with 2 None show ?thesis by simp
  qed
qed

lemma removeTags_noTag_id: "noTag s \<Longrightarrow> removeTags s = s"
  by (induction s) auto


lemma noTag_append1: "noTag (a @ b) \<Longrightarrow> noTag a"
proof (induction a)
  case Nil show ?case by simp
next
  case (Cons c a)
  then have t: "tagAt (c # a @ b) = None" and n: "noTag a" by simp_all
  from t have "tagAt (c # a) = None"
    by (cases a) (auto simp: tagAt_None_iff)
  with n show ?case by simp
qed

lemma noTag_dropWhile: "noTag s \<Longrightarrow> noTag (dropWhile P s)"
  by (induction s) auto

lemma rev_dropWhile_rev_prefix:
  "s = rev (dropWhile P (rev s)) @ rev (takeWhile P (rev s))"
proof -
  have "rev (dropWhile P (rev s)) @ rev (takeWhile P (rev s)) =
        rev (takeWhile P (rev s) @ dropWhile P (rev s))"
    by (simp only: rev_append)
  also have "\<dots> = rev (rev s)" by (simp only: takeWhile_dropWhile_id)
  finally show ?thesis by simp
qed

lemma noTag_trim: "noTag s \<Longrightarrow> noTag (trim s)"
proof -
  assume "noTag s"
  then have "noTag (dropWhile isSpace s)" by (rule noTag_dropWhile)
  then have "noTag (rev (dropWhile isSpace (rev (dropWhile isSpace s))) @
                    rev (takeWhile isSpace (rev (dropWhile isSpace s))))"
    using rev_dropWhile_rev_prefix[of "dropWhile isSpace s" isSpace] by simp
  then show ?thesis unfolding trim_def by (rule noTag_append1)
qed

lemma set_collapseSpaces: "set (collapseSpaces s) \<subseteq> insert 32 (set s)"
proof (induction s rule: collapseSpaces.induct)
  case 1 show ?case by simp
next
  case (2 c cs)
  have "set (dropWhile isSpace cs) \<subseteq> set cs" by (auto dest: set_dropWhileD)
  with 2 show ?case by auto
qed

lemma collapseSpaces_nonspace:
  "\<not> isSpace c \<Longrightarrow> collapseSpaces (c # cs) = c # collapseSpaces cs"
  by simp

lemma noTag_collapseSpaces: "noTag s \<Longrightarrow> noTag (collapseSpaces s)"
proof (induction s rule: collapseSpaces.induct)
  case 1 show ?case by simp
next
  case (2 c cs)
  from "2.prems" have t: "tagAt (c # cs) = None" and n: "noTag cs" by simp_all
  show ?case
  proof (cases "isSpace c")
    case True
    from n have "noTag (dropWhile isSpace cs)" by (rule noTag_dropWhile)
    with 2 True have "noTag (collapseSpaces (dropWhile isSpace cs))" by simp
    with True show ?thesis by (simp add: tagAt_None_iff)
  next
    case False
    with 2 n have ih: "noTag (collapseSpaces cs)" by simp
    from t have "c \<noteq> 60 \<or> cs = [] \<or> hd cs = 62 \<or> 62 \<notin> set cs"
      by (simp add: tagAt_None_iff)
    then have "tagAt (c # collapseSpaces cs) = None"
    proof (elim disjE)
      assume h: "hd cs = 62"
      show ?thesis
      proof (cases cs)
        case Nil then show ?thesis by (simp add: tagAt_None_iff)
      next
        case (Cons d ds)
        with h have "collapseSpaces cs = 62 # collapseSpaces ds"
          by (simp add: isSpace_def)
        then show ?thesis by (simp add: tagAt_None_iff)
      qed
    next
      assume "62 \<notin> set cs"
      with set_collapseSpaces[of cs] have "62 \<notin> set (collapseSpaces cs)" by auto
      then show ?thesis by (simp add: tagAt_None_iff)
    qed (simp_all add: tagAt_None_iff)
    with ih False show ?thesis by simp
  qed
qed

lemma dropWhile_hd_id: "xs = [] \<or> \<not> P (hd xs) \<Longrightarrow> dropWhile P xs = xs"
  by (cases xs) auto

lemma clean_collapseSpaces_id: "clean s \<Longrightarrow> collapseSpaces s = s"
  by (induction s) (auto simp: dropWhile_hd_id)

lemma collapseSpaces_hd:
  "s = [] \<or> \<not> isSpace (hd s) \<Longrightarrow> collapseSpaces s = [] \<or> \<not> isSpace (hd (collapseSpaces s))"
  by (cases s) auto

lemma clean_collapseSpaces: "clean (collapseSpaces s)"
proof (induction s rule: collapseSpaces.induct)
  case 1 show ?case by simp
next
  case (2 c cs)
  show ?case
  proof (cases "isSpace c")
    case True
    have "dropWhile isSpace cs = [] \<or> \<not> isSpace (hd (dropWhile isSpace cs))"
      using hd_dropWhile[of isSpace cs] by blast
    then have "collapseSpaces (dropWhile isSpace cs) = [] \<or>
               \<not> isSpace (hd (collapseSpaces (dropWhile isSpace cs)))"
      by (rule collapseSpaces_hd)
    with 2 True show ?thesis by (simp add: isSpace_def)
  next
    case False with 2 show ?thesis by simp
  qed
qed

lemma clean_append1: "clean (a @ b) \<Longrightarrow> clean a"
proof (induction a)
  case Nil show ?case by simp
next
  case (Cons c a)
  then show ?case by (cases a) (auto split: if_splits)
qed

lemma clean_dropWhile: "clean s \<Longrightarrow> clean (dropWhile P s)"
  by (induction s) (auto split: if_splits)

lemma clean_trim: "clean s \<Longrightarrow> clean (trim s)"
proof -
  assume "clean s"
  then have "clean (dropWhile isSpace s)" by (rule clean_dropWhile)
  then have "clean (rev (dropWhile isSpace (rev (dropWhile isSpace s))) @
                    rev (takeWhile isSpace (rev (dropWhile isSpace s))))"
    using rev_dropWhile_rev_prefix[of "dropWhile isSpace s" isSpace] by simp
  then show ?thesis unfolding trim_def by (rule clean_append1)
qed

lemma trim_idem: "trim (trim s) = trim s"
proof -
  define u where "u = dropWhile isSpace s"
  define v where "v = dropWhile isSpace (rev u)"
  have tr: "trim s = rev v" by (simp add: trim_def u_def v_def)
  have u: "u = rev v @ rev (takeWhile isSpace (rev u))"
    unfolding v_def by (rule rev_dropWhile_rev_prefix)
  have "dropWhile isSpace (rev v) = rev v"
  proof (cases "v = []")
    case True then show ?thesis by simp
  next
    case False
    then have "hd u = hd (rev v)" using u by (metis hd_append2 rev_is_Nil_conv)
    moreover have "u \<noteq> []" using False u by auto
    then have "\<not> isSpace (hd u)" unfolding u_def by (rule hd_dropWhile)
    ultimately show ?thesis by (simp add: dropWhile_hd_id)
  qed
  moreover have "dropWhile isSpace v = v" unfolding v_def by (rule dropWhile_idem)
  ultimately have "trim (rev v) = rev v" by (simp add: trim_def)
  with tr show ?thesis by simp
qed

lemma stripTags_fixed: "stripTags (stripTags x) = stripTags x"
proof -
  define y where "y = stripTags x"
  have nt: "noTag y" unfolding y_def stripTags_def
    by (intro noTag_trim noTag_collapseSpaces noTag_removeTags)
  have cl: "clean y" unfolding y_def stripTags_def
    by (intro clean_trim clean_collapseSpaces)
  have tr: "trim y = y" unfolding y_def stripTags_def by (rule trim_idem)
  have "stripTags y = trim (collapseSpaces y)"
    using nt by (simp add: stripTags_def removeTags_noTag_id)
  also have "\<dots> = trim y" using cl by (simp add: clean_collapseSpaces_id)
  also have "\<dots> = y" by (rule tr)
  finally show ?thesis by (simp add: y_def)
qed

section \<open>The Date built-in\<close>

text \<open>
  The source computes with \<^verbatim>\<open>Date.UTC\<close>, \<^verbatim>\<open>new Date(ms)\<close> and the getters
  \<^verbatim>\<open>getFullYear\<close>, \<^verbatim>\<open>getMonth\<close>, \<^verbatim>\<open>getDate\<close>, \<^verbatim>\<open>getHours\<close>, \<^verbatim>\<open>getMinutes\<close>,
  \<^verbatim>\<open>getSeconds\<close>. They are modelled after the abstract operations of ECMA-262
  (section "Date Objects"). Every number the source handles is an integer of magnitude
  below \<open>2^53\<close> or NaN, so a number is an integer or \<open>NaN\<close>.
\<close>

datatype number = NaN | Num int

definition msPerDay :: int where "msPerDay = 86400000"
definition msPerHour :: int where "msPerHour = 3600000"
definition msPerMinute :: int where "msPerMinute = 60000"
definition msPerSecond :: int where "msPerSecond = 1000"

definition Day :: "int \<Rightarrow> int" where
  "Day t = t div msPerDay"

definition DaysInYear :: "int \<Rightarrow> int" where
  "DaysInYear y =
     (if y mod 4 \<noteq> 0 then 365 else if y mod 100 \<noteq> 0 then 366
      else if y mod 400 \<noteq> 0 then 365 else 366)"

definition DayFromYear :: "int \<Rightarrow> int" where
  "DayFromYear y =
     365 * (y - 1970) + (y - 1969) div 4 - (y - 1901) div 100 + (y - 1601) div 400"

text \<open>
  ECMA-262 defines \<open>YearFromTime t\<close> as the largest \<open>y\<close> with
  \<open>msPerDay * DayFromYear y \<le> t\<close>. \<open>yearFromDay\<close> computes it from the day number by
  the 400-, 100-, 4- and 1-year cycles counted from 1 January 1601 (day \<open>-134774\<close>);
  lemma \<open>yearFromDay_bounds\<close> below shows that it is that year.
\<close>

definition yearFromDay :: "int \<Rightarrow> int" where
  "yearFromDay d =
     (let n = d + 134774;
          n400 = n div 146097; r400 = n mod 146097;
          n100 = min 3 (r400 div 36524); r100 = r400 - n100 * 36524;
          n4 = r100 div 1461; r4 = r100 mod 1461;
          n1 = min 3 (r4 div 365)
      in 1601 + 400 * n400 + 100 * n100 + 4 * n4 + n1)"

definition YearFromTime :: "int \<Rightarrow> int" where
  "YearFromTime t = yearFromDay (Day t)"

definition InLeapYear :: "int \<Rightarrow> int" where
  "InLeapYear t = (if DaysInYear (YearFromTime t) = 366 then 1 else 0)"

definition DayWithinYear :: "int \<Rightarrow> int" where
  "DayWithinYear t = Day t - DayFromYear (YearFromTime t)"

definition MonthFromTime :: "int \<Rightarrow> int" where
  "MonthFromTime t =
     (let d = DayWithinYear t; l = InLeapYear t
      in if d < 31 then 0
         else if d < 59 + l then 1
         else if d < 90 + l then 2
         else if d < 120 + l then 3
         else if d < 151 + l then 4
         else if d < 181 + l then 5
         else if d < 212 + l then 6
         else if d < 243 + l then 7
         else if d < 273 + l then 8
         else if d < 304 + l then 9
         else if d < 334 + l then 10
         else 11)"

definition DateFromTime :: "int \<Rightarrow> int" where
  "DateFromTime t =
     (let d = DayWithinYear t; l = InLeapYear t; m = MonthFromTime t
      in if m = 0 then d + 1
         else if m = 1 then d - 30
         else if m = 2 then d - 58 - l
         else if m = 3 then d - 89 - l
         else if m = 4 then d - 119 - l
         else if m = 5 then d - 150 - l
         else if m = 6 then d - 180 - l
         else if m = 7 then d - 211 - l
         else if m = 8 then d - 242 - l
         else if m = 9 then d - 272 - l
         else if m = 10 then d - 303 - l
         else d - 333 - l)"

definition HourFromTime :: "int \<Rightarrow> int" where
  "HourFromTime t = (t div msPerHour) mod 24"

definition MinFromTime :: "int \<Rightarrow> int" where
  "MinFromTime t = (t div msPerMinute) mod 60"

definition SecFromTime :: "int \<Rightarrow> int" where
  "SecFromTime t = (t div msPerSecond) mod 60"

text \<open>
  \<open>MakeDay year month date\<close>: the month may lie outside \<open>0..11\<close> and the date outside
  the month; the year is carried from the month, and the date is added to the day
  number of the first of the month.
\<close>

definition daysBeforeMonth :: "int \<Rightarrow> int \<Rightarrow> int" where
  "daysBeforeMonth l m =
     (if m = 0 then 0
      else if m = 1 then 31
      else if m = 2 then 59 + l
      else if m = 3 then 90 + l
      else if m = 4 then 120 + l
      else if m = 5 then 151 + l
      else if m = 6 then 181 + l
      else if m = 7 then 212 + l
      else if m = 8 then 243 + l
      else if m = 9 then 273 + l
      else if m = 10 then 304 + l
      else 334 + l)"

text \<open>The length of month \<open>m\<close> (0 for January) in a year with leap flag \<open>l\<close>.\<close>

definition daysInMonth :: "int \<Rightarrow> int \<Rightarrow> int" where
  "daysInMonth l m =
     (if m = 1 then 28 + l
      else if m = 3 \<or> m = 5 \<or> m = 8 \<or> m = 10 then 30
      else 31)"

definition MakeDay :: "int \<Rightarrow> int \<Rightarrow> int \<Rightarrow> int" where
  "MakeDay year month date =
     (let ym = year + month div 12;
          mn = month mod 12;
          l = (if DaysInYear ym = 366 then 1 else 0)
      in DayFromYear ym + daysBeforeMonth l mn + date - 1)"

definition MakeTime :: "int \<Rightarrow> int \<Rightarrow> int \<Rightarrow> int \<Rightarrow> int" where
  "MakeTime hour minute sec ms =
     hour * msPerHour + minute * msPerMinute + sec * msPerSecond + ms"

definition MakeDate :: "int \<Rightarrow> int \<Rightarrow> int" where
  "MakeDate day time = day * msPerDay + time"

definition TimeClip :: "int \<Rightarrow> number" where
  "TimeClip t = (if \<bar>t\<bar> > 8640000000000000 then NaN else Num t)"

text \<open>
  \<^verbatim>\<open>Date.UTC(year, month, date, hours, minutes, seconds)\<close> on integers. ECMA-262's
  \<open>MakeFullYear\<close> reads a year from 0 to 99 as a year of the twentieth century.
\<close>

definition MakeFullYear :: "int \<Rightarrow> int" where
  "MakeFullYear year = (if 0 \<le> year \<and> year \<le> 99 then 1900 + year else year)"

definition Date_UTC :: "int \<Rightarrow> int \<Rightarrow> int \<Rightarrow> int \<Rightarrow> int \<Rightarrow> int \<Rightarrow> number" where
  "Date_UTC year month date hours minutes seconds =
     TimeClip (MakeDate (MakeDay (MakeFullYear year) month date)
                        (MakeTime hours minutes seconds 0))"

text \<open>\<^verbatim>\<open>new Date(v)\<close> for a number \<open>v\<close>; the Date object is its time value.\<close>

definition newDate :: "number \<Rightarrow> number" where
  "newDate v = (case v of NaN \<Rightarrow> NaN | Num t \<Rightarrow> TimeClip t)"

text \<open>
  The getters without \<^verbatim>\<open>UTC\<close> in their name read the local time of the host:
  \<open>LocalTime t = t + LocalTZA t\<close>. The offset of the host's time zone is no part of the
  program, so it is a parameter \<open>tza\<close> of the model, in milliseconds, as a function of
  the instant; \<open>hostUTC\<close> is a host that runs in UTC.
\<close>

type_synonym localTZA = "int \<Rightarrow> int"

definition hostUTC :: localTZA where
  "hostUTC = (\<lambda>t. 0)"

text \<open>A host in the zone Asia/Kolkata: five and a half hours ahead of UTC, all year.\<close>

definition hostKolkata :: localTZA where
  "hostKolkata = (\<lambda>t. 19800000)"

definition LocalTime :: "localTZA \<Rightarrow> int \<Rightarrow> int" where
  "LocalTime tza t = t + tza t"

definition getFullYear :: "localTZA \<Rightarrow> number \<Rightarrow> number" where
  "getFullYear tza d = (case d of NaN \<Rightarrow> NaN | Num t \<Rightarrow> Num (YearFromTime (LocalTime tza t)))"

definition getMonth :: "localTZA \<Rightarrow> number \<Rightarrow> number" where
  "getMonth tza d = (case d of NaN \<Rightarrow> NaN | Num t \<Rightarrow> Num (MonthFromTime (LocalTime tza t)))"

definition getDate :: "localTZA \<Rightarrow> number \<Rightarrow> number" where
  "getDate tza d = (case d of NaN \<Rightarrow> NaN | Num t \<Rightarrow> Num (DateFromTime (LocalTime tza t)))"

definition getHours :: "localTZA \<Rightarrow> number \<Rightarrow> number" where
  "getHours tza d = (case d of NaN \<Rightarrow> NaN | Num t \<Rightarrow> Num (HourFromTime (LocalTime tza t)))"

definition getMinutes :: "localTZA \<Rightarrow> number \<Rightarrow> number" where
  "getMinutes tza d = (case d of NaN \<Rightarrow> NaN | Num t \<Rightarrow> Num (MinFromTime (LocalTime tza t)))"

definition getSeconds :: "localTZA \<Rightarrow> number \<Rightarrow> number" where
  "getSeconds tza d = (case d of NaN \<Rightarrow> NaN | Num t \<Rightarrow> Num (SecFromTime (LocalTime tza t)))"

text \<open>Arithmetic on numbers: NaN is kept.\<close>

definition plusN :: "number \<Rightarrow> int \<Rightarrow> number" where
  "plusN v k = (case v of NaN \<Rightarrow> NaN | Num t \<Rightarrow> Num (t + k))"

definition minusN :: "number \<Rightarrow> int \<Rightarrow> number" where
  "minusN v k = (case v of NaN \<Rightarrow> NaN | Num t \<Rightarrow> Num (t - k))"

text \<open>
  \<^verbatim>\<open>String(n)\<close> of an integer or NaN, \<^verbatim>\<open>Number(s)\<close> of a string of decimal digits, and
  \<^verbatim>\<open>s.padStart(2, "0")\<close>.
\<close>

fun digitsOf :: "nat \<Rightarrow> jsstring" where
  "digitsOf n = (if n < 10 then [48 + n] else digitsOf (n div 10) @ [48 + n mod 10])"

declare digitsOf.simps [simp del]

definition numberToString :: "number \<Rightarrow> jsstring" where
  "numberToString v =
     (case v of
        NaN \<Rightarrow> js ''NaN''
      | Num i \<Rightarrow> if i < 0 then 45 # digitsOf (nat (- i)) else digitsOf (nat i))"

definition digitsToNumber :: "jsstring \<Rightarrow> int" where
  "digitsToNumber s = foldl (\<lambda>a c. 10 * a + (int c - 48)) 0 s"

definition padStart2 :: "jsstring \<Rightarrow> jsstring" where
  "padStart2 s = replicate (2 - length s) 48 @ s"

subsection \<open>Facts about the calendar arithmetic\<close>

lemma div_succ:
  fixes x n :: int
  assumes n: "0 < n"
  shows "(x + 1) div n = x div n + (if (x + 1) mod n = 0 then 1 else 0)"
proof -
  define q where "q = x div n"
  define r where "r = x mod n"
  have x: "x = n * q + r" by (simp add: q_def r_def)
  have r: "0 \<le> r" "r < n" using n by (simp_all add: r_def)
  show ?thesis
  proof (cases "r + 1 < n")
    case True
    have e: "x + 1 = n * q + (r + 1)" using x by simp
    have "(x + 1) div n = q" using e r True by (intro int_div_pos_eq[of _ n q "r + 1"]) auto
    moreover have "(x + 1) mod n = r + 1" using e r True by (intro int_mod_pos_eq[of _ n q "r + 1"]) auto
    ultimately show ?thesis using r by (simp add: q_def)
  next
    case False
    with r have rn: "r + 1 = n" by simp
    have e: "x + 1 = n * (q + 1) + 0" using x rn by (simp add: algebra_simps)
    have "(x + 1) div n = q + 1" using e n by (intro int_div_pos_eq[of _ n "q + 1" 0]) auto
    moreover have "(x + 1) mod n = 0" using e n by (intro int_mod_pos_eq[of _ n "q + 1" 0]) auto
    ultimately show ?thesis by (simp add: q_def)
  qed
qed

lemma mod_shift:
  fixes y :: int
  shows "(y - n * c) mod n = y mod n"
proof -
  have "(y - n * c) mod n = (y + n * (- c)) mod n" by simp
  also have "\<dots> = y mod n" by (rule mod_mult_self2)
  finally show ?thesis .
qed

lemma DayFromYear_Suc: "DayFromYear (y + 1) = DayFromYear y + DaysInYear y"
proof -
  have m4: "(y - 1968) mod 4 = y mod 4" using mod_shift[of y 4 492] by simp
  have m100: "(y - 1900) mod 100 = y mod 100" using mod_shift[of y 100 19] by simp
  have m400: "(y - 1600) mod 400 = y mod 400" using mod_shift[of y 400 4] by simp
  have a: "(y + 1 - 1969) div 4 = (y - 1969) div 4 + (if y mod 4 = 0 then 1 else 0)"
    using div_succ[of 4 "y - 1969"] m4 by (simp add: algebra_simps)
  have b: "(y + 1 - 1901) div 100 = (y - 1901) div 100 + (if y mod 100 = 0 then 1 else 0)"
    using div_succ[of 100 "y - 1901"] m100 by (simp add: algebra_simps)
  have c: "(y + 1 - 1601) div 400 = (y - 1601) div 400 + (if y mod 400 = 0 then 1 else 0)"
    using div_succ[of 400 "y - 1601"] m400 by (simp add: algebra_simps)
  have d: "y mod 4 = 0" if "y mod 100 = 0"
  proof -
    from that have "100 dvd y" by (simp add: mod_eq_0_iff_dvd)
    moreover have "(4::int) dvd 100" by simp
    ultimately have "4 dvd y" using dvd_trans by blast
    then show ?thesis by (simp add: mod_eq_0_iff_dvd)
  qed
  have e: "y mod 100 = 0" if "y mod 400 = 0"
  proof -
    from that have "400 dvd y" by (simp add: mod_eq_0_iff_dvd)
    moreover have "(100::int) dvd 400" by simp
    ultimately have "100 dvd y" using dvd_trans by blast
    then show ?thesis by (simp add: mod_eq_0_iff_dvd)
  qed
  show ?thesis
    unfolding DayFromYear_def DaysInYear_def a b c using d e by auto
qed


lemma DayFromYear_cycle:
  assumes "0 \<le> b" "b \<le> 3" "0 \<le> c" "c \<le> 24" "0 \<le> e" "e \<le> 3"
  shows "DayFromYear (1601 + 400 * a + 100 * b + 4 * c + e) =
         146097 * a + 36524 * b + 1461 * c + 365 * e - 134774"
proof -
  define y where "y = 1601 + 400 * a + 100 * b + 4 * c + e"
  have k4: "(y - 1969) div 4 = 100 * a + 25 * b + c - 92"
    using assms by (intro int_div_pos_eq[of _ 4 _ e]) (auto simp: y_def)
  have k100: "(y - 1901) div 100 = 4 * a + b - 3"
    using assms by (intro int_div_pos_eq[of _ 100 _ "4 * c + e"]) (auto simp: y_def)
  have k400: "(y - 1601) div 400 = a"
    using assms by (intro int_div_pos_eq[of _ 400 _ "100 * b + 4 * c + e"]) (auto simp: y_def)
  have "DayFromYear y = 146097 * a + 36524 * b + 1461 * c + 365 * e - 134774"
    unfolding DayFromYear_def k4 k100 k400 by (simp add: y_def)
  then show ?thesis by (simp add: y_def)
qed

lemma div_bounds:
  fixes x n :: int
  assumes "0 < n"
  shows "n * (x div n) \<le> x" and "x < n * (x div n) + n"
  using mult_div_mod_eq[of n x] pos_mod_bound[OF assms, of x] pos_mod_sign[OF assms, of x]
  by linarith+

lemma yearFromDay_bounds:
  "DayFromYear (yearFromDay d) \<le> d \<and> d < DayFromYear (yearFromDay d + 1)"
proof -
  define n where "n = d + 134774"
  define a where "a = n div 146097"
  define r where "r = n mod 146097"
  define q where "q = r div 36524"
  define b where "b = min 3 q"
  define r' where "r' = r - b * 36524"
  define c where "c = r' div 1461"
  define r4 where "r4 = r' mod 1461"
  define q1 where "q1 = r4 div 365"
  define e where "e = min 3 q1"
  have y: "yearFromDay d = 1601 + 400 * a + 100 * b + 4 * c + e"
    unfolding yearFromDay_def Let_def n_def a_def r_def q_def b_def r'_def c_def r4_def q1_def e_def
    by (rule refl)
  have n: "n = 146097 * a + r" by (simp add: a_def r_def)
  have r: "0 \<le> r" "r < 146097" by (simp_all add: r_def)
  have q: "36524 * q \<le> r" "r < 36524 * q + 36524"
    unfolding q_def by (rule div_bounds, simp)+
  have q0: "0 \<le> q" using q(2) r(1) by simp
  have b: "0 \<le> b" "b \<le> 3" using q0 by (simp_all add: b_def)
  have r': "0 \<le> r'" "r' \<le> 36524" "b < 3 \<Longrightarrow> r' < 36524"
  proof -
    show "0 \<le> r'" using q(1) q0 by (simp add: r'_def b_def min_def)
    show "r' \<le> 36524" using q(2) r(2) by (simp add: r'_def b_def min_def)
    show "b < 3 \<Longrightarrow> r' < 36524" using q(2) by (simp add: r'_def b_def min_def split: if_splits)
  qed
  have cq: "r' = 1461 * c + r4" by (simp add: c_def r4_def)
  have r4: "0 \<le> r4" "r4 < 1461" by (simp_all add: r4_def)
  have c0: "0 \<le> c" using cq r4(2) r'(1) by simp
  have c: "c \<le> 24" using cq r4(1) r'(2) by simp
  have q1: "365 * q1 \<le> r4" "r4 < 365 * q1 + 365"
    unfolding q1_def by (rule div_bounds, simp)+
  have q10: "0 \<le> q1" using q1(2) r4(1) by simp
  have e: "0 \<le> e" "e \<le> 3" using q10 by (simp_all add: e_def)
  have lo: "365 * e \<le> r4" using q1(1) q10 by (simp add: e_def min_def)
  have hi: "e < 3 \<Longrightarrow> r4 < 365 * e + 365" using q1(2) by (simp add: e_def min_def split: if_splits)
  have nk: "n = 146097 * a + 36524 * b + 1461 * c + r4"
    using n cq by (simp add: r'_def)
  have D: "DayFromYear (yearFromDay d) = 146097 * a + 36524 * b + 1461 * c + 365 * e - 134774"
    unfolding y using b c0 c e by (rule DayFromYear_cycle)
  have lower: "DayFromYear (yearFromDay d) \<le> d"
    using D nk lo by (simp add: n_def)
  have upper: "d < DayFromYear (yearFromDay d) + DaysInYear (yearFromDay d)"
  proof (cases "e < 3")
    case True
    have "365 \<le> DaysInYear (yearFromDay d)" by (simp add: DaysInYear_def)
    with hi[OF True] D nk show ?thesis by (simp add: n_def)
  next
    case False
    with e have e3: "e = 3" by simp
    show ?thesis
    proof (cases "c = 24 \<and> b < 3")
      case True
      then have "r4 < 1460" using cq r'(3) by simp
      moreover have "365 \<le> DaysInYear (yearFromDay d)" by (simp add: DaysInYear_def)
      ultimately show ?thesis using D nk e3 by (simp add: n_def)
    next
      case False
      have m4: "yearFromDay d mod 4 = 0"
      proof -
        have "yearFromDay d = 4 * (400 + 100 * a + 25 * b + c + 1) + 0" unfolding y e3 by simp
        then show ?thesis by (rule int_mod_pos_eq) simp_all
      qed
      have leap: "DaysInYear (yearFromDay d) = 366"
      proof (cases "c = 24")
        case True
        with False b have b3: "b = 3" by simp
        have "yearFromDay d = 400 * (a + 5) + 0" unfolding y e3 b3 True by simp
        then have "yearFromDay d mod 400 = 0" by (rule int_mod_pos_eq) simp_all
        with m4 show ?thesis by (simp add: DaysInYear_def)
      next
        case False
        have "yearFromDay d = 100 * (4 * a + b + 16) + (4 * c + 4)" unfolding y e3 by simp
        then have "yearFromDay d mod 100 = 4 * c + 4"
          using c0 c False by (intro int_mod_pos_eq[of _ 100 "4 * a + b + 16"]) auto
        with m4 c0 show ?thesis by (simp add: DaysInYear_def)
      qed
      with D nk r4 e3 show ?thesis by (simp add: n_def)
    qed
  qed
  from lower upper show ?thesis by (simp add: DayFromYear_Suc)
qed

lemma DayFromYear_range:
  assumes "0 \<le> y" "y \<le> 10007"
  shows "- 720000 \<le> DayFromYear y" and "DayFromYear y \<le> 2940000"
proof -
  define q4 where "q4 = (y - 1969) div 4"
  define q100 where "q100 = (y - 1901) div 100"
  define q400 where "q400 = (y - 1601) div 400"
  have a: "4 * q4 \<le> y - 1969" "y - 1969 < 4 * q4 + 4"
    unfolding q4_def by (rule div_bounds, simp)+
  have b: "100 * q100 \<le> y - 1901" "y - 1901 < 100 * q100 + 100"
    unfolding q100_def by (rule div_bounds, simp)+
  have c: "400 * q400 \<le> y - 1601" "y - 1601 < 400 * q400 + 400"
    unfolding q400_def by (rule div_bounds, simp)+
  have d: "DayFromYear y = 365 * (y - 1970) + q4 - q100 + q400"
    by (simp add: DayFromYear_def q4_def q100_def q400_def)
  show "- 720000 \<le> DayFromYear y" unfolding d using assms a b c by (simp add: algebra_simps)
  show "DayFromYear y \<le> 2940000" unfolding d using assms a b c by (simp add: algebra_simps)
qed

subsection \<open>The getters invert \<open>MakeDay\<close> and \<open>MakeTime\<close>\<close>

lemma DaysInYear_range: "365 \<le> DaysInYear y \<and> DaysInYear y \<le> 366"
  by (simp add: DaysInYear_def)

lemma DayFromYear_mono_nat: "DayFromYear a \<le> DayFromYear (a + int k)"
proof (induction k)
  case 0
  show ?case by simp
next
  case (Suc k)
  have "DayFromYear (a + int (Suc k)) = DayFromYear (a + int k) + DaysInYear (a + int k)"
    using DayFromYear_Suc[of "a + int k"] by (simp add: algebra_simps)
  with Suc DaysInYear_range[of "a + int k"] show ?case by simp
qed

lemma DayFromYear_mono: "a \<le> b \<Longrightarrow> DayFromYear a \<le> DayFromYear b"
  using DayFromYear_mono_nat[of a "nat (b - a)"] by simp

lemma yearFromDay_unique:
  assumes "DayFromYear y \<le> d" "d < DayFromYear (y + 1)"
  shows "yearFromDay d = y"
proof -
  let ?z = "yearFromDay d"
  have z: "DayFromYear ?z \<le> d" "d < DayFromYear (?z + 1)"
    using yearFromDay_bounds[of d] by simp_all
  have "\<not> ?z < y"
  proof
    assume "?z < y"
    then have "DayFromYear (?z + 1) \<le> DayFromYear y" by (intro DayFromYear_mono) simp
    with z(2) assms(1) show False by simp
  qed
  moreover have "\<not> y < ?z"
  proof
    assume "y < ?z"
    then have "DayFromYear (y + 1) \<le> DayFromYear ?z" by (intro DayFromYear_mono) simp
    with z(1) assms(2) show False by simp
  qed
  ultimately show ?thesis by simp
qed

lemma Day_MakeDate:
  assumes "0 \<le> tm" "tm < msPerDay"
  shows "Day (MakeDate day tm) = day"
  unfolding Day_def MakeDate_def
  using assms by (intro int_div_pos_eq[of _ _ _ tm]) (simp_all add: algebra_simps)

lemma MakeDay_civil:
  assumes "0 \<le> m" "m \<le> 11"
  shows "MakeDay y m dt =
         DayFromYear y + daysBeforeMonth (if DaysInYear y = 366 then 1 else 0) m + dt - 1"
proof -
  have "m div 12 = 0" "m mod 12 = m" using assms by simp_all
  then show ?thesis by (simp add: MakeDay_def Let_def)
qed

lemma civil_day_in_year:
  assumes m: "0 \<le> m" "m \<le> 11" and d: "1 \<le> dt" "dt \<le> daysInMonth l m" and l: "l = 0 \<or> l = 1"
  shows "0 \<le> daysBeforeMonth l m + dt - 1" and "daysBeforeMonth l m + dt - 1 < 365 + l"
proof -
  from m have c: "m = 0 \<or> m = 1 \<or> m = 2 \<or> m = 3 \<or> m = 4 \<or> m = 5 \<or> m = 6 \<or> m = 7 \<or>
                  m = 8 \<or> m = 9 \<or> m = 10 \<or> m = 11" by presburger
  show "0 \<le> daysBeforeMonth l m + dt - 1"
    using c d l by (auto simp: daysBeforeMonth_def)
  show "daysBeforeMonth l m + dt - 1 < 365 + l"
    using c d l by (auto simp: daysBeforeMonth_def daysInMonth_def)
qed


lemma MakeTime_in_day:
  assumes "0 \<le> h" "h \<le> 23" "0 \<le> mi" "mi \<le> 59" "0 \<le> s" "s \<le> 59"
  shows "0 \<le> MakeTime h mi s 0" and "MakeTime h mi s 0 < msPerDay"
  using assms by (simp_all add: MakeTime_def msPerHour_def msPerMinute_def msPerSecond_def msPerDay_def)

lemma time_getters:
  assumes "0 \<le> h" "h \<le> 23" "0 \<le> mi" "mi \<le> 59" "0 \<le> s" "s \<le> 59"
  shows "HourFromTime (MakeDate day (MakeTime h mi s 0)) = h"
    and "MinFromTime (MakeDate day (MakeTime h mi s 0)) = mi"
    and "SecFromTime (MakeDate day (MakeTime h mi s 0)) = s"
proof -
  let ?t = "MakeDate day (MakeTime h mi s 0)"
  have t: "?t = day * 86400000 + h * 3600000 + mi * 60000 + s * 1000"
    by (simp add: MakeDate_def MakeTime_def msPerDay_def msPerHour_def msPerMinute_def msPerSecond_def)
  have "?t div 3600000 = day * 24 + h"
    using assms by (intro int_div_pos_eq[of _ _ _ "mi * 60000 + s * 1000"]) (simp_all add: t)
  moreover have "(day * 24 + h) mod 24 = h"
    using assms by (intro int_mod_pos_eq[of _ _ day]) simp_all
  ultimately show "HourFromTime ?t = h" by (simp add: HourFromTime_def msPerHour_def)
  have "?t div 60000 = day * 1440 + h * 60 + mi"
    using assms by (intro int_div_pos_eq[of _ _ _ "s * 1000"]) (simp_all add: t)
  moreover have "(day * 1440 + h * 60 + mi) mod 60 = mi"
    using assms by (intro int_mod_pos_eq[of _ _ "day * 24 + h"]) simp_all
  ultimately show "MinFromTime ?t = mi" by (simp add: MinFromTime_def msPerMinute_def)
  have "?t div 1000 = day * 86400 + h * 3600 + mi * 60 + s"
    using assms by (intro int_div_pos_eq[of _ _ _ 0]) (simp_all add: t)
  moreover have "(day * 86400 + h * 3600 + mi * 60 + s) mod 60 = s"
    using assms by (intro int_mod_pos_eq[of _ _ "day * 1440 + h * 60 + mi"]) simp_all
  ultimately show "SecFromTime ?t = s" by (simp add: SecFromTime_def msPerSecond_def)
qed

lemma date_getters:
  assumes m: "0 \<le> m" "m \<le> 11"
    and d: "1 \<le> dt" "dt \<le> daysInMonth (if DaysInYear y = 366 then 1 else 0) m"
    and tm: "0 \<le> tm" "tm < msPerDay"
  shows "YearFromTime (MakeDate (MakeDay y m dt) tm) = y"
    and "MonthFromTime (MakeDate (MakeDay y m dt) tm) = m"
    and "DateFromTime (MakeDate (MakeDay y m dt) tm) = dt"
proof -
  let ?t = "MakeDate (MakeDay y m dt) tm"
  define l :: int where "l = (if DaysInYear y = 366 then 1 else 0)"
  define w where "w = daysBeforeMonth l m + dt - 1"
  have l: "l = 0 \<or> l = 1" by (simp add: l_def)
  have ly: "DaysInYear y = 365 + l" by (simp add: l_def DaysInYear_def)
  have w: "0 \<le> w" "w < 365 + l"
    unfolding w_def using m d(1) d(2)[folded l_def] l by (rule civil_day_in_year)+
  have day: "Day ?t = DayFromYear y + w"
    using Day_MakeDate[OF tm] MakeDay_civil[OF m, of y dt] by (simp add: l_def w_def)
  have "yearFromDay (DayFromYear y + w) = y"
    using w by (intro yearFromDay_unique) (simp_all add: DayFromYear_Suc ly)
  then show y: "YearFromTime ?t = y" by (simp add: YearFromTime_def day)
  have dw: "DayWithinYear ?t = w" by (simp add: DayWithinYear_def day y)
  have il: "InLeapYear ?t = l" by (simp add: InLeapYear_def y l_def)
  from m have c: "m = 0 \<or> m = 1 \<or> m = 2 \<or> m = 3 \<or> m = 4 \<or> m = 5 \<or> m = 6 \<or> m = 7 \<or>
                  m = 8 \<or> m = 9 \<or> m = 10 \<or> m = 11" by presburger
  have dl: "dt \<le> daysInMonth l m" using d(2) by (simp add: l_def)
  have l01: "0 \<le> l" "l \<le> 1" using l by auto
  show mo: "MonthFromTime ?t = m"
    unfolding MonthFromTime_def dw il Let_def w_def
    using c d(1) dl l01 by (elim disjE; simp add: daysBeforeMonth_def daysInMonth_def)
  show "DateFromTime ?t = dt"
    unfolding DateFromTime_def dw il mo Let_def w_def
    using c by (elim disjE; simp add: daysBeforeMonth_def)
qed

section \<open>TimeCodec\<close>

text \<open>
  \<^verbatim>\<open>const m = ts.match(/^(\d{14})(?:\s*([+-]\d{2}:?\d{2}|[+-]\d{4}|Z))?/i);\<close>

  \<open>matchOffset r\<close> tries the first alternative \<^verbatim>\<open>[+-]\d{2}:?\d{2}\<close> at the start of \<open>r\<close>;
  whatever the second alternative \<^verbatim>\<open>[+-]\d{4}\<close> matches, the first has matched already.
  \<open>matchTz\<close> is the optional group: white space, then an offset or a \<^verbatim>\<open>Z\<close> of either
  case; it yields capture 2, which is undefined (\<open>None\<close>) when the group does not
  match. \<open>matchTime\<close> yields captures 1 and 2, or \<open>None\<close> for a failed match.
\<close>

definition matchOffset :: "jsstring \<Rightarrow> jsstring option" where
  "matchOffset r =
     (if 3 \<le> length r \<and> (r ! 0 = 43 \<or> r ! 0 = 45) \<and> isDigit (r ! 1) \<and> isDigit (r ! 2) then
        (if 6 \<le> length r \<and> r ! 3 = 58 \<and> isDigit (r ! 4) \<and> isDigit (r ! 5) then Some (take 6 r)
         else if 5 \<le> length r \<and> isDigit (r ! 3) \<and> isDigit (r ! 4) then Some (take 5 r)
         else None)
      else None)"

definition matchTz :: "jsstring \<Rightarrow> jsstring option" where
  "matchTz rest =
     (let r = dropWhile isSpace rest
      in case matchOffset r of
           Some z \<Rightarrow> Some z
         | None \<Rightarrow> (case r of
                       [] \<Rightarrow> None
                     | c # cs \<Rightarrow> if c = 90 \<or> c = 122 then Some [c] else None))"

definition matchTime :: "jsstring \<Rightarrow> (jsstring \<times> jsstring option) option" where
  "matchTime ts =
     (if 14 \<le> length ts \<and> list_all isDigit (take 14 ts)
      then Some (take 14 ts, matchTz (drop 14 ts))
      else None)"

text \<open>\<^verbatim>\<open>tz.replace(":", "")\<close>: the first colon is removed.\<close>

fun removeColon :: "jsstring \<Rightarrow> jsstring" where
  "removeColon [] = []"
| "removeColon (c # cs) = (if c = 58 then cs else c # removeColon cs)"

text \<open>
  \<^verbatim>\<open>
  const tzClean = tz.replace(":", "");
  const sign = tzClean[0] === "-" ? -1 : 1;
  const hh = Number(tzClean.slice(1, 3));
  const mm = Number(tzClean.slice(3, 5));
  const offsetMinutes = sign * (hh * 60 + mm);
  \<close>
\<close>

definition offsetMinutes :: "jsstring \<Rightarrow> int" where
  "offsetMinutes tz =
     (let tzClean = removeColon tz;
          sign = (if take 1 tzClean = [45] then - 1 else 1);
          hh = digitsToNumber (slice tzClean 1 3);
          mm = digitsToNumber (slice tzClean 3 5)
      in sign * (hh * 60 + mm))"

text \<open>
  \<^verbatim>\<open>function parseXmltvTime(ts)\<close>. The argument is a string or null (\<open>None\<close>); the result
  is null (\<open>None\<close>) or a Date, given by its time value.
\<close>

definition parseXmltvTime :: "jsstring option \<Rightarrow> number option" where
  "parseXmltvTime ts0 =
     (case ts0 of
        None \<Rightarrow> None
      | Some raw \<Rightarrow>
          if raw = [] then None
          else
            (case matchTime (trim raw) of
               None \<Rightarrow> None
             | Some (dt, tz) \<Rightarrow>
                 let y = digitsToNumber (slice dt 0 4);
                     mo = digitsToNumber (slice dt 4 6) - 1;
                     d = digitsToNumber (slice dt 6 8);
                     h = digitsToNumber (slice dt 8 10);
                     mi = digitsToNumber (slice dt 10 12);
                     s = digitsToNumber (slice dt 12 14);
                     utcMillis = Date_UTC y mo d h mi s;
                     utcMillis' =
                       (case tz of
                          None \<Rightarrow> utcMillis
                        | Some z \<Rightarrow>
                            if toUpperCase z \<noteq> [90]
                            then minusN utcMillis (offsetMinutes z * 60 * 1000)
                            else utcMillis)
                 in Some (newDate utcMillis')))"

text \<open>
  \<^verbatim>\<open>function formatTimeIST(originalTs)\<close>. A Date object is never falsy, so the raw
  string is only returned when the parse returned null.
\<close>

definition formatTimeIST :: "localTZA \<Rightarrow> jsstring option \<Rightarrow> jsstring" where
  "formatTimeIST tza originalTs =
     (case parseXmltvTime originalTs of
        None \<Rightarrow> (case originalTs of None \<Rightarrow> [] | Some raw \<Rightarrow> raw)
      | Some dateUtc \<Rightarrow>
          let istMillis = plusN dateUtc 19800000;
              ist = newDate istMillis;
              yyyy = numberToString (getFullYear tza ist);
              mm = padStart2 (numberToString (plusN (getMonth tza ist) 1));
              dd = padStart2 (numberToString (getDate tza ist));
              hh = padStart2 (numberToString (getHours tza ist));
              mi = padStart2 (numberToString (getMinutes tza ist));
              ss = padStart2 (numberToString (getSeconds tza ist))
          in yyyy @ [45] @ mm @ [45] @ dd @ [32] @ hh @ [58] @ mi @ [58] @ ss @ js '' IST'')"

subsection \<open>The instant of a 14-digit time stamp\<close>

text \<open>
  \<open>instantOf dt\<close> is the instant at which a UTC wall clock shows the 14 digits \<open>dt\<close>,
  read as year (4 digits), month, day, hour, minute and second (2 digits each) of the
  proleptic Gregorian calendar; a field beyond its calendar range is carried into the
  next unit, as \<open>MakeDay\<close> and \<open>MakeTime\<close> do. \<open>codeInstant dt\<close> is the same with the
  year passed through \<open>MakeFullYear\<close>, which is what \<^verbatim>\<open>Date.UTC\<close> computes.
\<close>

definition instantOf :: "jsstring \<Rightarrow> int" where
  "instantOf dt =
     MakeDate
       (MakeDay (digitsToNumber (slice dt 0 4)) (digitsToNumber (slice dt 4 6) - 1)
                (digitsToNumber (slice dt 6 8)))
       (MakeTime (digitsToNumber (slice dt 8 10)) (digitsToNumber (slice dt 10 12))
                 (digitsToNumber (slice dt 12 14)) 0)"

definition codeInstant :: "jsstring \<Rightarrow> int" where
  "codeInstant dt =
     MakeDate
       (MakeDay (MakeFullYear (digitsToNumber (slice dt 0 4)))
                (digitsToNumber (slice dt 4 6) - 1) (digitsToNumber (slice dt 6 8)))
       (MakeTime (digitsToNumber (slice dt 8 10)) (digitsToNumber (slice dt 10 12))
                 (digitsToNumber (slice dt 12 14)) 0)"

text \<open>
  \<open>offsetOf sg h1 h2 m1 m2\<close> is the offset in minutes that the sign \<open>sg\<close> and the digits
  \<^verbatim>\<open>HH\<close> and \<^verbatim>\<open>MM\<close> denote.
\<close>

definition offsetOf :: "nat \<Rightarrow> nat \<Rightarrow> nat \<Rightarrow> nat \<Rightarrow> nat \<Rightarrow> int" where
  "offsetOf sg h1 h2 m1 m2 =
     (if sg = 45 then - 1 else 1) *
       ((10 * (int h1 - 48) + (int h2 - 48)) * 60 + (10 * (int m1 - 48) + (int m2 - 48)))"

text \<open>
  What \<^verbatim>\<open>parseXmltvTime\<close> subtracts from \<^verbatim>\<open>utcMillis\<close> for the text \<open>rest\<close> after the 14
  digits: nothing when no time-zone designator is matched or it is \<^verbatim>\<open>Z\<close>, else
  \<^verbatim>\<open>offsetMinutes * 60 * 1000\<close>.
\<close>

definition tzShift :: "jsstring \<Rightarrow> int" where
  "tzShift rest =
     (case matchTz rest of
        None \<Rightarrow> 0
      | Some z \<Rightarrow> if toUpperCase z \<noteq> [90] then offsetMinutes z * 60 * 1000 else 0)"

subsection \<open>Facts about the time stamp pattern\<close>

lemma isDigit_value: "isDigit c \<Longrightarrow> 0 \<le> int c - 48 \<and> int c - 48 \<le> 9"
  by (auto simp: isDigit_def)

lemma isDigit_not_space: "isDigit c \<Longrightarrow> \<not> isSpace c"
  by (auto simp: isDigit_def isSpace_def)

lemma digitsToNumber2: "digitsToNumber [a, b] = 10 * (int a - 48) + (int b - 48)"
  by (simp add: digitsToNumber_def)

lemma digitsToNumber4:
  "digitsToNumber [a, b, c, d] =
     1000 * (int a - 48) + 100 * (int b - 48) + 10 * (int c - 48) + (int d - 48)"
  by (simp add: digitsToNumber_def)

lemma digitsToNumber2_range:
  "isDigit a \<Longrightarrow> isDigit b \<Longrightarrow> 0 \<le> digitsToNumber [a, b] \<and> digitsToNumber [a, b] \<le> 99"
  using isDigit_value[of a] isDigit_value[of b] by (simp add: digitsToNumber2)

lemma digitsToNumber4_range:
  "isDigit a \<Longrightarrow> isDigit b \<Longrightarrow> isDigit c \<Longrightarrow> isDigit d \<Longrightarrow>
   0 \<le> digitsToNumber [a, b, c, d] \<and> digitsToNumber [a, b, c, d] \<le> 9999"
  using isDigit_value[of a] isDigit_value[of b] isDigit_value[of c] isDigit_value[of d]
  by (simp add: digitsToNumber4)

lemma length14_cases:
  assumes "length dt = 14"
  obtains a1 a2 a3 a4 a5 a6 a7 a8 a9 a10 a11 a12 a13 a14
  where "dt = [a1, a2, a3, a4, a5, a6, a7, a8, a9, a10, a11, a12, a13, a14]"
  using assms by (auto simp: numeral_eq_Suc length_Suc_conv)

lemma dropWhile_spaces_append:
  "list_all isSpace sp \<Longrightarrow> dropWhile isSpace (sp @ r) = dropWhile isSpace r"
  by (induction sp) auto

lemma matchOffset_plain:
  assumes "sg = 43 \<or> sg = 45" "isDigit h1" "isDigit h2" "isDigit m1" "isDigit m2"
  shows "matchOffset ([sg, h1, h2, m1, m2] @ post) = Some [sg, h1, h2, m1, m2]"
proof -
  have "m1 \<noteq> 58" using assms(4) by (auto simp: isDigit_def)
  with assms show ?thesis by (simp add: matchOffset_def)
qed

lemma matchOffset_colon:
  assumes "sg = 43 \<or> sg = 45" "isDigit h1" "isDigit h2" "isDigit m1" "isDigit m2"
  shows "matchOffset ([sg, h1, h2, 58, m1, m2] @ post) = Some [sg, h1, h2, 58, m1, m2]"
  using assms by (simp add: matchOffset_def)

lemma matchTz_offset:
  assumes "list_all isSpace sp" "sg = 43 \<or> sg = 45" and "matchOffset (sg # r) = Some z"
  shows "matchTz (sp @ sg # r) = Some z"
proof -
  have "\<not> isSpace sg" using assms(2) by (auto simp: isSpace_def)
  then have "dropWhile isSpace (sp @ sg # r) = sg # r"
    using assms(1) by (simp add: dropWhile_spaces_append)
  with assms(3) show ?thesis by (simp add: matchTz_def)
qed

lemma matchTime_digits:
  assumes "length dt = 14" "list_all isDigit dt"
  shows "matchTime (dt @ rest) = Some (dt, matchTz rest)"
  using assms by (simp add: matchTime_def)

lemma matchTime_None:
  "\<not> (14 \<le> length ts \<and> list_all isDigit (take 14 ts)) \<Longrightarrow> matchTime ts = None"
  by (simp add: matchTime_def)

lemma offsetMinutes_plain:
  "offsetMinutes [sg, h1, h2, m1, m2] =
     (if sg = 45 then - 1 else 1) * (digitsToNumber [h1, h2] * 60 + digitsToNumber [m1, m2])"
  if "isDigit h1" "isDigit h2" "isDigit m1" "isDigit m2" "sg = 43 \<or> sg = 45"
proof -
  have n: "h1 \<noteq> 58" "h2 \<noteq> 58" "m1 \<noteq> 58" "m2 \<noteq> 58" "sg \<noteq> 58"
    using that by (auto simp: isDigit_def)
  then have "removeColon [sg, h1, h2, m1, m2] = [sg, h1, h2, m1, m2]" by simp
  then show ?thesis by (simp add: offsetMinutes_def slice_def)
qed

lemma offsetMinutes_colon:
  "offsetMinutes [sg, h1, h2, 58, m1, m2] =
     (if sg = 45 then - 1 else 1) * (digitsToNumber [h1, h2] * 60 + digitsToNumber [m1, m2])"
  if "isDigit h1" "isDigit h2" "sg = 43 \<or> sg = 45"
proof -
  have n: "h1 \<noteq> 58" "h2 \<noteq> 58" "sg \<noteq> 58"
    using that by (auto simp: isDigit_def)
  then have "removeColon [sg, h1, h2, 58, m1, m2] = [sg, h1, h2, m1, m2]" by simp
  then show ?thesis by (simp add: offsetMinutes_def slice_def)
qed

lemma daysBeforeMonth_range:
  "0 \<le> l \<Longrightarrow> l \<le> 1 \<Longrightarrow> 0 \<le> daysBeforeMonth l m \<and> daysBeforeMonth l m \<le> 335"
  by (simp add: daysBeforeMonth_def)

lemma MakeDay_range:
  assumes "99 < yr" "yr \<le> 9999" "- 1 \<le> mo" "mo \<le> 98" "0 \<le> d" "d \<le> 99"
  shows "- 720001 \<le> MakeDay yr mo d" and "MakeDay yr mo d \<le> 2940500"
proof -
  define q where "q = mo div 12"
  define ym where "ym = yr + q"
  define l :: int where "l = (if DaysInYear ym = 366 then 1 else 0)"
  have q: "12 * q \<le> mo" "mo < 12 * q + 12" unfolding q_def by (rule div_bounds, simp)+
  have ym: "0 \<le> ym" "ym \<le> 10007" using q assms by (simp_all add: ym_def)
  have l: "0 \<le> l" "l \<le> 1" by (simp_all add: l_def)
  have m: "MakeDay yr mo d = DayFromYear ym + daysBeforeMonth l (mo mod 12) + d - 1"
    by (simp add: MakeDay_def Let_def ym_def q_def l_def)
  from DayFromYear_range[OF ym] daysBeforeMonth_range[OF l, of "mo mod 12"] assms
  show "- 720001 \<le> MakeDay yr mo d" and "MakeDay yr mo d \<le> 2940500"
    unfolding m by simp_all
qed

lemma MakeFullYear_range:
  "0 \<le> y \<Longrightarrow> y \<le> 9999 \<Longrightarrow> 99 < MakeFullYear y \<and> MakeFullYear y \<le> 9999"
  by (simp add: MakeFullYear_def)

lemma MakeTime_range:
  assumes "0 \<le> h" "h \<le> 99" "0 \<le> mi" "mi \<le> 99" "0 \<le> s" "s \<le> 99"
  shows "0 \<le> MakeTime h mi s 0" and "MakeTime h mi s 0 \<le> 362439000"
  using assms by (simp_all add: MakeTime_def msPerHour_def msPerMinute_def msPerSecond_def)

lemma MakeDate_range:
  assumes "- 720001 \<le> day" "day \<le> 2940500" "0 \<le> time" "time \<le> 362439000"
  shows "- 62208086400000 \<le> MakeDate day time" and "MakeDate day time \<le> 254059562439000"
  using assms by (simp_all add: MakeDate_def msPerDay_def)

lemma codeInstant_range:
  assumes "length dt = 14" "list_all isDigit dt"
  shows "- 62208086400000 \<le> codeInstant dt" and "codeInstant dt \<le> 254059562439000"
proof -
  from assms(1) obtain a1 a2 a3 a4 a5 a6 a7 a8 a9 a10 a11 a12 a13 a14
    where dt: "dt = [a1, a2, a3, a4, a5, a6, a7, a8, a9, a10, a11, a12, a13, a14]"
    by (rule length14_cases)
  define y where "y = digitsToNumber [a1, a2, a3, a4]"
  define mo where "mo = digitsToNumber [a5, a6]"
  define d where "d = digitsToNumber [a7, a8]"
  define h where "h = digitsToNumber [a9, a10]"
  define mi where "mi = digitsToNumber [a11, a12]"
  define s where "s = digitsToNumber [a13, a14]"
  have c: "codeInstant dt = MakeDate (MakeDay (MakeFullYear y) (mo - 1) d) (MakeTime h mi s 0)"
    by (simp add: codeInstant_def dt slice_def y_def mo_def d_def h_def mi_def s_def)
  have y: "0 \<le> y \<and> y \<le> 9999" unfolding y_def
    using assms(2) by (intro digitsToNumber4_range) (simp_all add: dt)
  have mo: "0 \<le> mo \<and> mo \<le> 99" unfolding mo_def
    using assms(2) by (intro digitsToNumber2_range) (simp_all add: dt)
  have d: "0 \<le> d \<and> d \<le> 99" unfolding d_def
    using assms(2) by (intro digitsToNumber2_range) (simp_all add: dt)
  have h: "0 \<le> h \<and> h \<le> 99" unfolding h_def
    using assms(2) by (intro digitsToNumber2_range) (simp_all add: dt)
  have mi: "0 \<le> mi \<and> mi \<le> 99" unfolding mi_def
    using assms(2) by (intro digitsToNumber2_range) (simp_all add: dt)
  have s: "0 \<le> s \<and> s \<le> 99" unfolding s_def
    using assms(2) by (intro digitsToNumber2_range) (simp_all add: dt)
  have fy: "99 < MakeFullYear y \<and> MakeFullYear y \<le> 9999"
    using y by (simp add: MakeFullYear_range)
  have day: "- 720001 \<le> MakeDay (MakeFullYear y) (mo - 1) d"
            "MakeDay (MakeFullYear y) (mo - 1) d \<le> 2940500"
    using fy mo d by (simp_all add: MakeDay_range)
  have time: "0 \<le> MakeTime h mi s 0" "MakeTime h mi s 0 \<le> 362439000"
    using h mi s by (simp_all add: MakeTime_range)
  show "- 62208086400000 \<le> codeInstant dt" and "codeInstant dt \<le> 254059562439000"
    unfolding c using day time by (rule MakeDate_range)+
qed

lemma TimeClip_small: "\<bar>t\<bar> \<le> 8640000000000000 \<Longrightarrow> TimeClip t = Num t"
  by (simp add: TimeClip_def)

lemma parse_digits:
  assumes "trim raw = dt @ rest" "length dt = 14" "list_all isDigit dt"
  shows "parseXmltvTime (Some raw) =
         Some (newDate
           (case matchTz rest of
              None \<Rightarrow> Num (codeInstant dt)
            | Some z \<Rightarrow>
                if toUpperCase z \<noteq> [90]
                then Num (codeInstant dt - offsetMinutes z * 60 * 1000)
                else Num (codeInstant dt)))"
proof -
  have ne: "raw \<noteq> []" using assms(1,2) by (auto simp: trim_def)
  have mt: "matchTime (trim raw) = Some (dt, matchTz rest)"
    unfolding assms(1) using assms(2,3) by (rule matchTime_digits)
  have r: "\<bar>codeInstant dt\<bar> \<le> 8640000000000000"
    using codeInstant_range[OF assms(2,3)] by simp
  have u: "Date_UTC (digitsToNumber (slice dt 0 4)) (digitsToNumber (slice dt 4 6) - 1)
             (digitsToNumber (slice dt 6 8)) (digitsToNumber (slice dt 8 10))
             (digitsToNumber (slice dt 10 12)) (digitsToNumber (slice dt 12 14)) =
           Num (codeInstant dt)"
    unfolding Date_UTC_def codeInstant_def[symmetric] using r by (rule TimeClip_small)
  show ?thesis
    unfolding parseXmltvTime_def
    by (simp add: ne mt u Let_def minusN_def split: option.split)
qed

lemma offsetOf_range:
  assumes "isDigit h1" "isDigit h2" "isDigit m1" "isDigit m2"
  shows "- 6039 \<le> offsetOf sg h1 h2 m1 m2" and "offsetOf sg h1 h2 m1 m2 \<le> 6039"
  using isDigit_value[OF assms(1)] isDigit_value[OF assms(2)]
        isDigit_value[OF assms(3)] isDigit_value[OF assms(4)]
  by (simp_all add: offsetOf_def)

lemma newDate_small: "\<bar>t\<bar> \<le> 8640000000000000 \<Longrightarrow> newDate (Num t) = Num t"
  by (simp add: newDate_def TimeClip_def)

lemma parse_offset:
  assumes dt: "length dt = 14" "list_all isDigit dt"
    and sp: "list_all isSpace sp"
    and tz: "sg = 43 \<or> sg = 45" "isDigit h1" "isDigit h2" "isDigit m1" "isDigit m2"
            "tz = [sg, h1, h2, m1, m2] \<or> tz = [sg, h1, h2, 58, m1, m2]"
    and raw: "trim raw = dt @ sp @ tz @ post"
  shows "parseXmltvTime (Some raw) =
         Some (Num (codeInstant dt - offsetOf sg h1 h2 m1 m2 * 60000))"
proof -
  have mo: "matchOffset (sg # tl tz @ post) = Some tz"
    using tz(6) matchOffset_plain[OF tz(1-5), of post] matchOffset_colon[OF tz(1-5), of post]
    by auto
  have hd: "tz @ post = sg # tl tz @ post" using tz(6) by auto
  have mt: "matchTz (sp @ tz @ post) = Some tz"
    unfolding hd using sp tz(1) mo by (rule matchTz_offset)
  have up: "toUpperCase tz \<noteq> [90]" using tz(6) by (auto simp: toUpperCase_def)
  have om: "offsetMinutes tz = offsetOf sg h1 h2 m1 m2"
    using tz(6) offsetMinutes_plain[OF tz(2-5) tz(1)] offsetMinutes_colon[OF tz(2,3) tz(1), of m1 m2]
    by (auto simp: offsetOf_def digitsToNumber2)
  have r: "\<bar>codeInstant dt - offsetOf sg h1 h2 m1 m2 * 60000\<bar> \<le> 8640000000000000"
    using codeInstant_range[OF dt] offsetOf_range[OF tz(2-5), of sg] by simp
  have "parseXmltvTime (Some raw) =
        Some (newDate (Num (codeInstant dt - offsetMinutes tz * 60 * 1000)))"
    using parse_digits[OF raw dt] by (simp add: mt up)
  also have "\<dots> = Some (Num (codeInstant dt - offsetOf sg h1 h2 m1 m2 * 60000))"
    using r by (simp add: om newDate_small)
  finally show ?thesis .
qed

lemma parse_no_offset:
  assumes dt: "length dt = 14" "list_all isDigit dt"
    and raw: "trim raw = dt @ rest"
    and tz: "matchTz rest = None \<or> matchTz rest = Some [90] \<or> matchTz rest = Some [122]"
  shows "parseXmltvTime (Some raw) = Some (Num (codeInstant dt))"
proof -
  have r: "\<bar>codeInstant dt\<bar> \<le> 8640000000000000"
    using codeInstant_range[OF dt] by simp
  have "parseXmltvTime (Some raw) = Some (newDate (Num (codeInstant dt)))"
    using parse_digits[OF raw dt] tz by (auto simp: toUpperCase_def upperUnit_def)
  then show ?thesis using r by (simp add: newDate_small)
qed

lemma matchTz_Z:
  assumes "list_all isSpace sp" "z = 90 \<or> z = 122"
  shows "matchTz (sp @ z # post) = Some [z]"
proof -
  have "\<not> isSpace z" using assms(2) by (auto simp: isSpace_def)
  then have "dropWhile isSpace (sp @ z # post) = z # post"
    using assms(1) by (simp add: dropWhile_spaces_append)
  moreover have "matchOffset (z # post) = None" using assms(2) by (auto simp: matchOffset_def)
  ultimately show ?thesis using assms(2) by (auto simp: matchTz_def)
qed

lemma matchTz_Nil: "matchTz [] = None"
  by (simp add: matchTz_def matchOffset_def)

lemma matchOffset_length: "matchOffset r = Some z \<Longrightarrow> 5 \<le> length z \<and> length z \<le> 6"
  by (auto simp: matchOffset_def split: if_splits)

lemma matchOffset_range:
  assumes "matchOffset r = Some z"
  shows "- 6039 \<le> offsetMinutes z \<and> offsetMinutes z \<le> 6039"
proof -
  from assms have c: "3 \<le> length r" "r ! 0 = 43 \<or> r ! 0 = 45" "isDigit (r ! 1)" "isDigit (r ! 2)"
    by (auto simp: matchOffset_def split: if_splits)
  then obtain sg h1 h2 r' where r: "r = sg # h1 # h2 # r'"
    by (cases r; cases "tl r"; cases "tl (tl r)") auto
  with c have sg: "sg = 43 \<or> sg = 45" and h: "isDigit h1" "isDigit h2" by auto
  from assms r consider
      (colon) m1 m2 r'' where "r' = 58 # m1 # m2 # r''" "isDigit m1" "isDigit m2" "z = [sg, h1, h2, 58, m1, m2]"
    | (plain) m1 m2 r'' where "r' = m1 # m2 # r''" "isDigit m1" "isDigit m2" "z = [sg, h1, h2, m1, m2]"
    by (cases r'; cases "tl r'"; cases "tl (tl r')") (auto simp: matchOffset_def split: if_splits)
  then show ?thesis
  proof cases
    case colon
    have "offsetMinutes z = offsetOf sg h1 h2 m1 m2"
      unfolding colon(4) using offsetMinutes_colon[OF h sg, of m1 m2]
      by (simp add: offsetOf_def digitsToNumber2)
    then show ?thesis using offsetOf_range[OF h colon(2,3), of sg] by simp
  next
    case plain
    have "offsetMinutes z = offsetOf sg h1 h2 m1 m2"
      unfolding plain(4) using offsetMinutes_plain[OF h plain(2,3) sg]
      by (simp add: offsetOf_def digitsToNumber2)
    then show ?thesis using offsetOf_range[OF h plain(2,3), of sg] by simp
  qed
qed

lemma matchTz_cases:
  "matchTz rest = None \<or> matchTz rest = Some [90] \<or> matchTz rest = Some [122] \<or>
   (\<exists>z. matchTz rest = Some z \<and> matchOffset (dropWhile isSpace rest) = Some z)"
  by (auto simp: matchTz_def Let_def split: option.splits list.splits)

lemma parse_valid:
  assumes dt: "length dt = 14" "list_all isDigit dt"
    and raw: "trim raw = dt @ rest"
  shows "\<exists>t. parseXmltvTime (Some raw) = Some (Num t) \<and> \<bar>t\<bar> \<le> 254060000000000"
proof -
  consider (none) "matchTz rest = None \<or> matchTz rest = Some [90] \<or> matchTz rest = Some [122]"
    | (off) z where "matchTz rest = Some z" "matchOffset (dropWhile isSpace rest) = Some z"
    using matchTz_cases[of rest] by blast
  then show ?thesis
  proof cases
    case none
    from parse_no_offset[OF dt raw none] codeInstant_range[OF dt]
    show ?thesis by simp
  next
    case off
    have len: "5 \<le> length z" using matchOffset_length[OF off(2)] by simp
    then have up: "toUpperCase z \<noteq> [90]" by (auto simp: toUpperCase_def)
    have r: "\<bar>codeInstant dt - offsetMinutes z * 60 * 1000\<bar> \<le> 254060000000000"
      using codeInstant_range[OF dt] matchOffset_range[OF off(2)] by (simp add: abs_le_iff)
    then have "newDate (Num (codeInstant dt - offsetMinutes z * 60 * 1000)) =
               Num (codeInstant dt - offsetMinutes z * 60 * 1000)"
      by (intro newDate_small) simp
    with parse_digits[OF raw dt] off(1) up r show ?thesis by simp
  qed
qed

lemma parse_None_iff:
  "parseXmltvTime (Some raw) = None \<longleftrightarrow>
     raw = [] \<or> \<not> (14 \<le> length (trim raw) \<and> list_all isDigit (take 14 (trim raw)))"
  by (auto simp: parseXmltvTime_def matchTime_def Let_def trim_def split: option.splits)

lemma formatTimeIST_Num:
  assumes "parseXmltvTime ts = Some (Num t)" "\<bar>t + 19800000\<bar> \<le> 8640000000000000"
  shows "formatTimeIST tza ts =
         numberToString (Num (YearFromTime (LocalTime tza (t + 19800000)))) @ [45] @
         padStart2 (numberToString (Num (MonthFromTime (LocalTime tza (t + 19800000)) + 1))) @ [45] @
         padStart2 (numberToString (Num (DateFromTime (LocalTime tza (t + 19800000))))) @ [32] @
         padStart2 (numberToString (Num (HourFromTime (LocalTime tza (t + 19800000))))) @ [58] @
         padStart2 (numberToString (Num (MinFromTime (LocalTime tza (t + 19800000))))) @ [58] @
         padStart2 (numberToString (Num (SecFromTime (LocalTime tza (t + 19800000))))) @
         js '' IST''"
  using assms
  by (simp add: formatTimeIST_def Let_def plusN_def newDate_small getFullYear_def getMonth_def
      getDate_def getHours_def getMinutes_def getSeconds_def)

subsection \<open>The display string of a calendar date\<close>

lemma digitsOf_small: "n < 10 \<Longrightarrow> digitsOf n = [48 + n]"
  by (simp add: digitsOf.simps)

lemma digitsOf_step: "10 \<le> n \<Longrightarrow> digitsOf n = digitsOf (n div 10) @ [48 + n mod 10]"
  by (subst digitsOf.simps) simp

lemma two_digits:
  assumes "0 \<le> n" "n \<le> 99"
  shows "padStart2 (numberToString (Num n)) = [48 + nat (n div 10), 48 + nat (n mod 10)]"
proof (cases "n < 10")
  case True
  with assms have "nat n < 10" "n div 10 = 0" "n mod 10 = n" by simp_all
  with assms show ?thesis by (simp add: numberToString_def padStart2_def digitsOf_small)
next
  case False
  with assms have a: "10 \<le> nat n" "nat n div 10 < 10" by simp_all
  have b: "nat (n div 10) = nat n div 10" "nat (n mod 10) = nat n mod 10"
    using assms by (simp_all add: nat_div_distrib nat_mod_distrib)
  from assms a show ?thesis
    by (simp add: numberToString_def padStart2_def digitsOf_step digitsOf_small b)
qed

lemma four_digits:
  assumes "1000 \<le> y" "y \<le> 9999"
  shows "numberToString (Num y) =
         [48 + nat (y div 1000), 48 + nat (y div 100 mod 10), 48 + nat (y div 10 mod 10),
          48 + nat (y mod 10)]"
proof -
  define k where "k = nat y"
  have k: "1000 \<le> k" "k \<le> 9999" using assms by (simp_all add: k_def)
  have d: "digitsOf k = [48 + k div 1000, 48 + k div 100 mod 10, 48 + k div 10 mod 10, 48 + k mod 10]"
  proof -
    have e: "k div 10 div 10 = k div 100" "k div 100 div 10 = k div 1000"
      by (simp_all add: div_mult2_eq[symmetric])
    have 1: "digitsOf k = digitsOf (k div 10) @ [48 + k mod 10]"
      using k by (intro digitsOf_step) simp
    have 2: "digitsOf (k div 10) = digitsOf (k div 100) @ [48 + k div 10 mod 10]"
      using k digitsOf_step[of "k div 10"] by (simp add: e)
    have 3: "digitsOf (k div 100) = digitsOf (k div 1000) @ [48 + k div 100 mod 10]"
      using k digitsOf_step[of "k div 100"] by (simp add: e)
    have 4: "digitsOf (k div 1000) = [48 + k div 1000]"
      using k by (intro digitsOf_small) simp
    show ?thesis by (simp add: 1 2 3 4)
  qed
  have n: "nat (y div 1000) = k div 1000" "nat (y div 100 mod 10) = k div 100 mod 10"
    "nat (y div 10 mod 10) = k div 10 mod 10" "nat (y mod 10) = k mod 10"
    using assms by (simp_all add: k_def nat_div_distrib nat_mod_distrib)
  show ?thesis using assms d by (simp add: numberToString_def n k_def[symmetric])
qed

lemma format_civil:
  assumes p: "parseXmltvTime ts = Some (Num t)"
    and f: "t + 19800000 = MakeDate (MakeDay y m dt) (MakeTime h mi s 0)"
    and m: "0 \<le> m" "m \<le> 11"
    and d: "1 \<le> dt" "dt \<le> daysInMonth (if DaysInYear y = 366 then 1 else 0) m"
    and tm: "0 \<le> h" "h \<le> 23" "0 \<le> mi" "mi \<le> 59" "0 \<le> s" "s \<le> 59"
    and r: "\<bar>t + 19800000\<bar> \<le> 8640000000000000"
  shows "formatTimeIST hostUTC ts =
         numberToString (Num y) @ [45] @ padStart2 (numberToString (Num (m + 1))) @ [45] @
         padStart2 (numberToString (Num dt)) @ [32] @ padStart2 (numberToString (Num h)) @ [58] @
         padStart2 (numberToString (Num mi)) @ [58] @ padStart2 (numberToString (Num s)) @
         js '' IST''"
proof -
  have L: "LocalTime hostUTC (t + 19800000) = MakeDate (MakeDay y m dt) (MakeTime h mi s 0)"
    by (simp add: LocalTime_def hostUTC_def f)
  note g = date_getters[OF m d MakeTime_in_day[OF tm]] time_getters[OF tm, of "MakeDay y m dt"]
  show ?thesis
    unfolding formatTimeIST_Num[OF p r, of hostUTC] L g ..
qed

subsection \<open>The parsed instant and the carry of out-of-range fields\<close>

lemma tzShift_range: "- 362340000 \<le> tzShift rest \<and> tzShift rest \<le> 362340000"
proof -
  consider (none) "matchTz rest = None \<or> matchTz rest = Some [90] \<or> matchTz rest = Some [122]"
    | (off) z where "matchTz rest = Some z" "matchOffset (dropWhile isSpace rest) = Some z"
    using matchTz_cases[of rest] by blast
  then show ?thesis
  proof cases
    case none
    then show ?thesis by (auto simp: tzShift_def toUpperCase_def upperUnit_def)
  next
    case off
    from matchOffset_range[OF off(2)] off(1) show ?thesis by (simp add: tzShift_def)
  qed
qed

lemma parse_tzShift:
  assumes "length dt = 14" "list_all isDigit dt" "trim raw = dt @ rest"
  shows "parseXmltvTime (Some raw) = Some (Num (codeInstant dt - tzShift rest))"
    and "\<bar>codeInstant dt - tzShift rest\<bar> \<le> 254060000000000"
proof -
  have r: "\<bar>codeInstant dt - tzShift rest\<bar> \<le> 254060000000000"
    using codeInstant_range[OF assms(1,2)] tzShift_range[of rest] by (simp add: abs_le_iff)
  have e: "(case matchTz rest of
              None \<Rightarrow> Num (codeInstant dt)
            | Some z \<Rightarrow>
                if toUpperCase z \<noteq> [90]
                then Num (codeInstant dt - offsetMinutes z * 60 * 1000)
                else Num (codeInstant dt)) = Num (codeInstant dt - tzShift rest)"
    by (simp add: tzShift_def split: option.splits)
  show "parseXmltvTime (Some raw) = Some (Num (codeInstant dt - tzShift rest))"
    unfolding parse_digits[OF assms(3,1,2)] e using r by (simp add: newDate_small)
  show "\<bar>codeInstant dt - tzShift rest\<bar> \<le> 254060000000000" by (rule r)
qed

lemma parse_never_invalid: "parseXmltvTime ts \<noteq> Some NaN"
proof (cases ts)
  case None
  then show ?thesis by (simp add: parseXmltvTime_def)
next
  case (Some raw)
  show ?thesis
  proof (cases "parseXmltvTime (Some raw) = None")
    case True
    with Some show ?thesis by simp
  next
    case False
    then have a: "14 \<le> length (trim raw)" "list_all isDigit (take 14 (trim raw))"
      using parse_None_iff[of raw] by auto
    have "length (take 14 (trim raw)) = 14" using a(1) by simp
    from parse_tzShift(1)[OF this a(2), of raw "drop 14 (trim raw)"] Some
    show ?thesis by simp
  qed
qed

lemma MakeDay_month_carry: "MakeDay y (m + 12) d = MakeDay (y + 1) m d"
proof -
  have "y + (m + 12) div 12 = y + 1 + m div 12" "(m + 12) mod 12 = m mod 12" by simp_all
  then show ?thesis by (simp only: MakeDay_def Let_def)
qed

lemma MakeDay_date_add: "MakeDay y m (d + k) = MakeDay y m d + k"
  by (simp add: MakeDay_def Let_def)

lemma daysBeforeMonth_Suc:
  assumes "0 \<le> m" "m \<le> 10"
  shows "daysBeforeMonth l (m + 1) = daysBeforeMonth l m + daysInMonth l m"
proof -
  from assms have "m = 0 \<or> m = 1 \<or> m = 2 \<or> m = 3 \<or> m = 4 \<or> m = 5 \<or> m = 6 \<or> m = 7 \<or>
    m = 8 \<or> m = 9 \<or> m = 10" by arith
  then show ?thesis by (elim disjE; simp add: daysBeforeMonth_def daysInMonth_def)
qed

lemma MakeDay_date_carry:
  assumes "0 \<le> m" "m \<le> 11"
  shows "MakeDay y m (daysInMonth (if DaysInYear y = 366 then 1 else 0) m + d) = MakeDay y (m + 1) d"
proof (cases "m = 11")
  case True
  have s: "DayFromYear (y + 1) = DayFromYear y + DaysInYear y" by (rule DayFromYear_Suc)
  have "DaysInYear y = 365 \<or> DaysInYear y = 366" by (simp add: DaysInYear_def)
  then show ?thesis unfolding True
    by (auto simp: MakeDay_def Let_def s daysBeforeMonth_def daysInMonth_def)
next
  case False
  with assms have m: "0 \<le> m" "m \<le> 10" by simp_all
  then have "m div 12 = 0" "m mod 12 = m" "(m + 1) div 12 = 0" "(m + 1) mod 12 = m + 1"
    by simp_all
  then show ?thesis by (simp add: MakeDay_def Let_def daysBeforeMonth_Suc[OF m])
qed

lemma MakeDate_hour_carry:
  "MakeDate (MakeDay y m d) (MakeTime (h + 24) mi s ms) =
   MakeDate (MakeDay y m (d + 1)) (MakeTime h mi s ms)"
  by (simp add: MakeDate_def MakeTime_def MakeDay_def Let_def msPerDay_def msPerHour_def algebra_simps)

lemma MakeTime_minute_carry: "MakeTime h (mi + 60) s ms = MakeTime (h + 1) mi s ms"
  by (simp add: MakeTime_def msPerHour_def msPerMinute_def algebra_simps)

lemma MakeTime_second_carry: "MakeTime h mi (s + 60) ms = MakeTime h (mi + 1) s ms"
  by (simp add: MakeTime_def msPerMinute_def msPerSecond_def algebra_simps)

section \<open>ProgrammeExtractor\<close>

subsection \<open>Regular-expression primitives\<close>

text \<open>
  \<open>firstMatch f s\<close> is the leftmost position of \<open>s\<close> at which the anchored pattern \<open>f\<close>
  matches: what \<^verbatim>\<open>exec\<close>, \<^verbatim>\<open>match\<close> and \<^verbatim>\<open>matchAll\<close> look for from the current
  position. \<open>matchAny\<close> tries a list of literal alternatives, in order and
  case-insensitively, and yields the text after the match. \<open>lazyUntil pats s\<close> is the
  lazy \<^verbatim>\<open>([\s\S]*?)\<close> followed by one of the literals: the shortest prefix of \<open>s\<close> after
  which a literal matches, and the text after that literal.
\<close>

fun firstMatch :: "(jsstring \<Rightarrow> 'a option) \<Rightarrow> jsstring \<Rightarrow> 'a option" where
  "firstMatch f [] = f []"
| "firstMatch f (c # cs) = (case f (c # cs) of Some m \<Rightarrow> Some m | None \<Rightarrow> firstMatch f cs)"

fun matchAny :: "jsstring list \<Rightarrow> jsstring \<Rightarrow> jsstring option" where
  "matchAny [] s = None"
| "matchAny (p # ps) s = (if ciPrefix p s then Some (drop (length p) s) else matchAny ps s)"

fun lazyUntil :: "jsstring list \<Rightarrow> jsstring \<Rightarrow> (jsstring \<times> jsstring) option" where
  "lazyUntil pats [] = (case matchAny pats [] of Some r \<Rightarrow> Some ([], r) | None \<Rightarrow> None)"
| "lazyUntil pats (c # cs) =
     (case matchAny pats (c # cs) of
        Some r \<Rightarrow> Some ([], r)
      | None \<Rightarrow> (case lazyUntil pats cs of
                   None \<Rightarrow> None
                 | Some (a, r) \<Rightarrow> Some (c # a, r)))"

subsection \<open>The programme pattern\<close>

text \<open>
  \<^verbatim>\<open>const progRegex = /<programme\b([^>]*)>([\s\S]*?)<\/programme>/gi;\<close>

  \<open>progAt s\<close> tries the pattern at the start of \<open>s\<close> and yields capture 1, capture 2 and
  the text after the match. The word boundary holds when the text ends after
  \<^verbatim>\<open><programme\<close> or goes on with a code unit outside \<^verbatim>\<open>\w\<close>. \<^verbatim>\<open>[^>]*\<close> runs up to
  the first \<^verbatim>\<open>>\<close>; giving back code units cannot help, because the next one has to be
  \<^verbatim>\<open>>\<close>.
\<close>

definition progAt :: "jsstring \<Rightarrow> (jsstring \<times> jsstring \<times> jsstring) option" where
  "progAt s =
     (if ciPrefix (js ''<programme'') s then
        (let t = drop 10 s
         in if t \<noteq> [] \<and> isWord (hd t) then None
            else
              (let attrText = takeWhile (\<lambda>x. x \<noteq> 62) t;
                   u = dropWhile (\<lambda>x. x \<noteq> 62) t
               in if u = [] then None
                  else (case lazyUntil [js ''</programme>''] (tl u) of
                          None \<Rightarrow> None
                        | Some (inner, rest) \<Rightarrow> Some (attrText, inner, rest))))
      else None)"

text \<open>\<^verbatim>\<open>progRegex.exec(xml)\<close> on the text that starts at \<^verbatim>\<open>lastIndex\<close>.\<close>

definition progExec :: "jsstring \<Rightarrow> (jsstring \<times> jsstring \<times> jsstring) option" where
  "progExec s = firstMatch progAt s"

subsection \<open>Attributes\<close>

text \<open>
  \<^verbatim>\<open>Object.fromEntries([...attrText.matchAll(/([\w:\-]+)="([^"]*)"/g)].map((m) => [m[1], m[2]]))\<close>

  \<open>attrAt s\<close> tries the attribute pattern at the start of \<open>s\<close>: the longest run of name
  code units, \<^verbatim>\<open>="\<close>, the value up to the next \<^verbatim>\<open>"\<close>. \<open>attrMatches\<close> lists the
  name and value of every match from left to right. \<open>fromEntries\<close> sets the properties
  in that order, so the last value of a name stays. The reads \<^verbatim>\<open>attrs.start\<close>,
  \<^verbatim>\<open>attrs.stop\<close> and \<^verbatim>\<open>attrs.channel\<close> find nothing on \<^verbatim>\<open>Object.prototype\<close>, so they
  are lookups in that map.
\<close>

definition isNameChar :: "nat \<Rightarrow> bool" where
  "isNameChar c \<longleftrightarrow> isWord c \<or> c = 58 \<or> c = 45"

definition attrAt :: "jsstring \<Rightarrow> ((jsstring \<times> jsstring) \<times> jsstring) option" where
  "attrAt s =
     (let name = takeWhile isNameChar s;
          t = dropWhile isNameChar s
      in if name = [] then None
         else if take 2 t \<noteq> [61, 34] then None
         else
           (let v = drop 2 t;
                val = takeWhile (\<lambda>x. x \<noteq> 34) v;
                r = dropWhile (\<lambda>x. x \<noteq> 34) v
            in if r = [] then None else Some ((name, val), tl r)))"

lemma attrAt_shorter: "attrAt s = Some (kv, r) \<Longrightarrow> length r < length s"
proof -
  assume a: "attrAt s = Some (kv, r)"
  define t where "t = dropWhile isNameChar s"
  define v where "v = drop 2 t"
  from a have r: "r = tl (dropWhile (\<lambda>x. x \<noteq> 34) v)" and n: "takeWhile isNameChar s \<noteq> []"
    by (auto simp: attrAt_def Let_def t_def v_def split: if_splits)
  have "length (dropWhile (\<lambda>x. x \<noteq> 34) v) \<le> length v" by (rule length_dropWhile_le)
  moreover have "length v \<le> length t" by (simp add: v_def)
  moreover have "length t \<le> length s" unfolding t_def by (rule length_dropWhile_le)
  moreover from n have "s \<noteq> []" by auto
  ultimately show ?thesis using r by (cases s) auto
qed

function attrMatches :: "jsstring \<Rightarrow> (jsstring \<times> jsstring) list" where
  "attrMatches [] = []"
| "attrMatches (c # cs) =
     (case attrAt (c # cs) of
        Some (kv, rest) \<Rightarrow> kv # attrMatches rest
      | None \<Rightarrow> attrMatches cs)"
  by pat_completeness auto
termination
  by (relation "measure length") (auto dest: attrAt_shorter)

definition setProperty ::
  "(jsstring \<rightharpoonup> jsstring) \<Rightarrow> jsstring \<times> jsstring \<Rightarrow> (jsstring \<rightharpoonup> jsstring)" where
  "setProperty m e = m(fst e \<mapsto> snd e)"

definition fromEntries :: "(jsstring \<times> jsstring) list \<Rightarrow> (jsstring \<rightharpoonup> jsstring)" where
  "fromEntries es = foldl setProperty Map.empty es"

text \<open>\<^verbatim>\<open>attrs[name] ?? ""\<close>\<close>

definition attrOr :: "jsstring \<Rightarrow> jsstring \<Rightarrow> jsstring" where
  "attrOr attrText name =
     (case fromEntries (attrMatches attrText) name of Some v \<Rightarrow> v | None \<Rightarrow> [])"

subsection \<open>Title and sub-title\<close>

text \<open>
  \<^verbatim>\<open>inner.match(/<title[^>]*>([\s\S]*?)<\/title>/i)\<close> and
  \<^verbatim>\<open>inner.match(/<(?:sub-title|sub_title)[^>]*>([\s\S]*?)<\/(?:sub-title|sub_title)>/i)\<close>

  \<open>elementAt opens closes s\<close> tries such a pattern at the start of \<open>s\<close> and yields
  capture 1; the result of \<^verbatim>\<open>match\<close> is the leftmost match or null.
\<close>

definition elementAt :: "jsstring list \<Rightarrow> jsstring list \<Rightarrow> jsstring \<Rightarrow> jsstring option" where
  "elementAt opens closes s =
     (case matchAny opens s of
        None \<Rightarrow> None
      | Some t \<Rightarrow>
          (let u = dropWhile (\<lambda>x. x \<noteq> 62) t
           in if u = [] then None
              else (case lazyUntil closes (tl u) of
                      None \<Rightarrow> None
                    | Some (body, rest) \<Rightarrow> Some body)))"

definition titleMatch :: "jsstring \<Rightarrow> jsstring option" where
  "titleMatch inner = firstMatch (elementAt [js ''<title''] [js ''</title>'']) inner"

definition subtitleMatch :: "jsstring \<Rightarrow> jsstring option" where
  "subtitleMatch inner =
     firstMatch (elementAt [js ''<sub-title'', js ''<sub_title'']
                           [js ''</sub-title>'', js ''</sub_title>'']) inner"

subsection \<open>The extraction loop\<close>

text \<open>
  A programme object. The property \<^verbatim>\<open>image\<close> does not exist until
  \<^verbatim>\<open>attachImagesToProgrammes\<close> sets it.
\<close>

record programme =
  startRaw :: jsstring
  stopRaw :: jsstring
  start :: jsstring
  stop :: jsstring
  channel :: jsstring
  title :: jsstring
  subTitle :: jsstring
  image :: "jsstring option"

text \<open>The object pushed for one match, from capture 1 and capture 2.\<close>

definition mkProgramme :: "localTZA \<Rightarrow> jsstring \<Rightarrow> jsstring \<Rightarrow> programme" where
  "mkProgramme tza attrText inner =
     \<lparr> startRaw = attrOr attrText (js ''start''),
       stopRaw = attrOr attrText (js ''stop''),
       start = formatTimeIST tza (Some (attrOr attrText (js ''start''))),
       stop = formatTimeIST tza (Some (attrOr attrText (js ''stop''))),
       channel = attrOr attrText (js ''channel''),
       title = (case titleMatch inner of
                  Some t \<Rightarrow> trim (stripTags t)
                | None \<Rightarrow> js ''Untitled''),
       subTitle = (case subtitleMatch inner of
                     Some t \<Rightarrow> trim (stripTags t)
                   | None \<Rightarrow> []),
       image = None \<rparr>"

text \<open>
  \<^verbatim>\<open>
  while ((match = progRegex.exec(xml)) !== null) { ... programmes.push({...}); }
  return programmes;
  \<close>
  The state of the loop is the text from \<^verbatim>\<open>lastIndex\<close> on and the array built so far.
\<close>

lemma lazyUntil_shorter: "lazyUntil pats s = Some (a, r) \<Longrightarrow> length r \<le> length s"
proof (induction s arbitrary: a r)
  case Nil
  then show ?case by (induction pats) (auto split: option.splits if_splits)
next
  case (Cons c cs)
  show ?case
  proof (cases "matchAny pats (c # cs)")
    case None
    with Cons.prems obtain a' where "lazyUntil pats cs = Some (a', r)"
      by (auto split: option.splits)
    from Cons.IH[OF this] show ?thesis by simp
  next
    case (Some r')
    with Cons.prems have "matchAny pats (c # cs) = Some r" by simp
    then show ?thesis by (induction pats) (auto split: if_splits)
  qed
qed

lemma progAt_shorter: "progAt s = Some (a, i, r) \<Longrightarrow> length r < length s"
proof -
  assume p: "progAt s = Some (a, i, r)"
  define t where "t = drop 10 s"
  define u where "u = dropWhile (\<lambda>x. x \<noteq> 62) t"
  from p have c: "ciPrefix (js ''<programme'') s" and u: "u \<noteq> []"
    and l: "lazyUntil [js ''</programme>''] (tl u) = Some (i, r)"
    by (auto simp: progAt_def Let_def t_def u_def split: if_splits option.splits)
  have "length r \<le> length (tl u)" using l by (rule lazyUntil_shorter)
  moreover have "length (tl u) < length u" using u by (cases u) auto
  moreover have "length u \<le> length t" unfolding u_def by (rule length_dropWhile_le)
  moreover have "length t \<le> length s" by (simp add: t_def)
  ultimately show ?thesis by simp
qed

lemma firstMatch_suffix:
  "firstMatch f s = Some m \<Longrightarrow> \<exists>pre s'. s = pre @ s' \<and> f s' = Some m"
proof (induction s)
  case Nil
  then show ?case by simp
next
  case (Cons c cs)
  show ?case
  proof (cases "f (c # cs)")
    case (Some m')
    with Cons.prems have "f (c # cs) = Some m" by simp
    then show ?thesis by (intro exI[of _ "[]"] exI[of _ "c # cs"]) simp
  next
    case None
    with Cons.prems have "firstMatch f cs = Some m" by simp
    from Cons.IH[OF this] obtain pre s' where "cs = pre @ s'" "f s' = Some m" by blast
    then show ?thesis by (intro exI[of _ "c # pre"] exI[of _ s']) simp
  qed
qed

lemma progExec_shorter: "progExec s = Some (a, i, r) \<Longrightarrow> length r < length s"
proof -
  assume "progExec s = Some (a, i, r)"
  then obtain pre s' where s: "s = pre @ s'" and p: "progAt s' = Some (a, i, r)"
    unfolding progExec_def by (blast dest: firstMatch_suffix)
  from progAt_shorter[OF p] s show ?thesis by simp
qed

function parseLoop :: "localTZA \<Rightarrow> jsstring \<Rightarrow> programme list \<Rightarrow> programme list" where
  "parseLoop tza xml programmes =
     (case progExec xml of
        None \<Rightarrow> programmes
      | Some (attrText, inner, rest) \<Rightarrow>
          parseLoop tza rest (programmes @ [mkProgramme tza attrText inner]))"
  by pat_completeness auto
termination
  by (relation "measure (\<lambda>(tza, xml, programmes). length xml)") (auto dest: progExec_shorter)

declare parseLoop.simps [simp del]

definition parseEPGProgrammes :: "localTZA \<Rightarrow> jsstring \<Rightarrow> programme list" where
  "parseEPGProgrammes tza xml = parseLoop tza xml []"

text \<open>
  \<open>progSpans xml\<close> lists capture 1 and capture 2 of the successive matches of the
  programme pattern in \<open>xml\<close>, in document order.
\<close>

function progSpans :: "jsstring \<Rightarrow> (jsstring \<times> jsstring) list" where
  "progSpans xml =
     (case progExec xml of
        None \<Rightarrow> []
      | Some (attrText, inner, rest) \<Rightarrow> (attrText, inner) # progSpans rest)"
  by pat_completeness auto
termination
  by (relation "measure length") (auto dest: progExec_shorter)

declare progSpans.simps [simp del]

text \<open>
  \<open>occursCI pat s\<close>: the literal \<open>pat\<close> occurs somewhere in \<open>s\<close>, in any letter case.
  \<open>docText blocks trailer\<close> is a document of programme elements, each given by the
  text before it, its attribute text and its content, followed by \<open>trailer\<close>. In a
  well-formed block no programme tag opens in the text before it, the attribute text
  holds no \<^verbatim>\<open>>\<close> and does not go on the tag name, and the content holds no closing
  programme tag.
\<close>

fun occursCI :: "jsstring \<Rightarrow> jsstring \<Rightarrow> bool" where
  "occursCI pat [] = ciPrefix pat []"
| "occursCI pat (c # cs) = (ciPrefix pat (c # cs) \<or> occursCI pat cs)"

definition openTag :: jsstring where
  "openTag = js ''<programme''"

definition closeTag :: jsstring where
  "closeTag = js ''</programme>''"

fun docText :: "(jsstring \<times> jsstring \<times> jsstring) list \<Rightarrow> jsstring \<Rightarrow> jsstring" where
  "docText [] trailer = trailer"
| "docText ((gap, attrText, inner) # blocks) trailer =
     gap @ openTag @ attrText @ [62] @ inner @ closeTag @ docText blocks trailer"

definition wfBlock :: "jsstring \<times> jsstring \<times> jsstring \<Rightarrow> bool" where
  "wfBlock b =
     (case b of (gap, attrText, inner) \<Rightarrow>
        \<not> occursCI openTag gap \<and> 62 \<notin> set attrText \<and>
        (attrText = [] \<or> \<not> isWord (hd attrText)) \<and> \<not> occursCI closeTag inner)"

text \<open>
  \<open>occurs pat s\<close>: the literal \<open>pat\<close> occurs somewhere in \<open>s\<close>, letter for letter.
  \<open>attrsText attrs\<close> is an attribute text: each attribute is given by the text before
  it, its name and its value. In a well-formed attribute the text before it holds no
  name code unit, the name is not empty and made of name code units, and the value
  holds no \<^verbatim>\<open>"\<close>.
\<close>

fun occurs :: "jsstring \<Rightarrow> jsstring \<Rightarrow> bool" where
  "occurs pat [] = (pat = [])"
| "occurs pat (c # cs) = (take (length pat) (c # cs) = pat \<or> occurs pat cs)"

fun attrsText :: "(jsstring \<times> jsstring \<times> jsstring) list \<Rightarrow> jsstring" where
  "attrsText [] = []"
| "attrsText ((ws, name, val) # attrs) = ws @ name @ [61, 34] @ val @ [34] @ attrsText attrs"

definition wfAttr :: "jsstring \<times> jsstring \<times> jsstring \<Rightarrow> bool" where
  "wfAttr a =
     (case a of (ws, name, val) \<Rightarrow>
        list_all (\<lambda>c. \<not> isNameChar c) ws \<and> name \<noteq> [] \<and> list_all isNameChar name \<and>
        34 \<notin> set val)"

text \<open>
  A programme element as the document has it: the text before it, its attributes (each
  with the white space before it, its name and its value), the white space before the
  closing \<^verbatim>\<open>>\<close> of the opening tag, and its content. \<open>elementBlock\<close> is the text of the
  element, with the attributes written \<^verbatim>\<open>name="value"\<close>. In a well-formed element the
  text before it opens no programme tag, every attribute follows white space, has a
  non-empty name of the code units \<^verbatim>\<open>[\w:\-]\<close> and a value without \<^verbatim>\<open>"\<close> and \<^verbatim>\<open>>\<close>, no
  two attributes have the same name, and the content holds no closing programme tag.
  \<open>attrValue attrs name\<close> is the value of the attribute \<open>name\<close> of the element, and the
  empty string when the element has no such attribute.
\<close>

type_synonym element = "jsstring \<times> (jsstring \<times> jsstring \<times> jsstring) list \<times> jsstring \<times> jsstring"

definition elementBlock :: "element \<Rightarrow> jsstring \<times> jsstring \<times> jsstring" where
  "elementBlock e = (case e of (gap, attrs, sp, inner) \<Rightarrow> (gap, attrsText attrs @ sp, inner))"

definition wfElementAttr :: "jsstring \<times> jsstring \<times> jsstring \<Rightarrow> bool" where
  "wfElementAttr a =
     (case a of (ws, name, val) \<Rightarrow>
        ws \<noteq> [] \<and> list_all isSpace ws \<and> name \<noteq> [] \<and> list_all isNameChar name \<and>
        34 \<notin> set val \<and> 62 \<notin> set val)"

definition wfElement :: "element \<Rightarrow> bool" where
  "wfElement e =
     (case e of (gap, attrs, sp, inner) \<Rightarrow>
        \<not> occursCI openTag gap \<and> list_all wfElementAttr attrs \<and>
        distinct (map (\<lambda>(ws, name, val). name) attrs) \<and>
        list_all isSpace sp \<and> \<not> occursCI closeTag inner)"

definition attrValue :: "(jsstring \<times> jsstring \<times> jsstring) list \<Rightarrow> jsstring \<Rightarrow> jsstring" where
  "attrValue attrs name =
     (case map_of (map (\<lambda>(ws, n, v). (n, v)) attrs) name of Some v \<Rightarrow> v | None \<Rightarrow> [])"

subsection \<open>Facts about the extraction loop\<close>

lemma parseLoop_spans:
  "parseLoop tza xml acc = acc @ map (\<lambda>(a, i). mkProgramme tza a i) (progSpans xml)"
proof (induction tza xml acc rule: parseLoop.induct)
  case (1 tza xml programmes)
  show ?case
  proof (cases "progExec xml")
    case None
    then show ?thesis by (simp add: parseLoop.simps[of tza xml] progSpans.simps[of xml])
  next
    case (Some m)
    obtain a i r where m: "m = (a, i, r)" by (cases m)
    from 1[OF Some[unfolded m] refl refl] Some m show ?thesis
      by (simp add: parseLoop.simps[of tza xml] progSpans.simps[of xml])
  qed
qed

lemma parseEPGProgrammes_spans:
  "parseEPGProgrammes tza xml = map (\<lambda>(a, i). mkProgramme tza a i) (progSpans xml)"
  by (simp add: parseEPGProgrammes_def parseLoop_spans)

lemma ciEq_refl: "ciEq c c"
  by (simp add: ciEq_def)

lemma ciPrefix_refl_append: "ciPrefix p (p @ s)"
  by (induction p) (auto simp: ciEq_refl)

lemma ciPrefix_stops:
  "ciPrefix p (u @ x # v) \<Longrightarrow> \<forall>c\<in>set p. \<not> ciEq c x \<Longrightarrow> ciPrefix p u"
proof (induction p u rule: ciPrefix.induct)
  case (1 s)
  then show ?case by simp
next
  case (2 p ps)
  then show ?case by simp
next
  case (3 p ps c cs)
  then show ?case by simp
qed

lemma ciPrefix_straddle:
  assumes "ciPrefix (x # p) (u @ x # v)" "u \<noteq> []" "\<forall>c\<in>set p. \<not> ciEq c x"
  shows "ciPrefix (x # p) u"
proof -
  from assms(2) obtain c u' where u: "u = c # u'" by (cases u) auto
  with assms(1) have "ciEq x c" "ciPrefix p (u' @ x # v)" by simp_all
  with ciPrefix_stops[OF this(2) assms(3)] u show ?thesis by simp
qed

lemma firstMatch_skip:
  assumes f: "\<And>s. \<not> ciPrefix (x # p) s \<Longrightarrow> f s = None"
    and p: "\<forall>c\<in>set p. \<not> ciEq c x"
    and g: "\<not> occursCI (x # p) gap"
  shows "firstMatch f (gap @ x # rest) = firstMatch f (x # rest)"
  using g
proof (induction gap)
  case Nil
  then show ?case by simp
next
  case (Cons c gap)
  from Cons.prems have n: "\<not> ciPrefix (x # p) (c # gap)" and g': "\<not> occursCI (x # p) gap"
    by simp_all
  have "\<not> ciPrefix (x # p) ((c # gap) @ x # rest)"
    using ciPrefix_straddle[of x p "c # gap" rest, OF _ _ p] n by blast
  then have "f (c # gap @ x # rest) = None" using f by simp
  with Cons.IH[OF g'] show ?case by simp
qed

lemma firstMatch_none:
  assumes f: "\<And>s. \<not> ciPrefix pat s \<Longrightarrow> f s = None"
    and g: "\<not> occursCI pat s"
  shows "firstMatch f s = None"
  using g by (induction s) (auto simp: f)

lemma lazyUntil_found:
  assumes p: "\<forall>c\<in>set p. \<not> ciEq c x"
    and i: "\<not> occursCI (x # p) inner"
  shows "lazyUntil [x # p] (inner @ (x # p) @ rest) = Some (inner, rest)"
  using i
proof (induction inner)
  case Nil
  have "ciPrefix (x # p) ((x # p) @ rest)" by (rule ciPrefix_refl_append)
  then show ?case by simp
next
  case (Cons c inner)
  from Cons.prems have n: "\<not> ciPrefix (x # p) (c # inner)" and i': "\<not> occursCI (x # p) inner"
    by simp_all
  have "\<not> ciPrefix (x # p) ((c # inner) @ x # (p @ rest))"
    using ciPrefix_straddle[of x p "c # inner" "p @ rest", OF _ _ p] n by blast
  then have "matchAny [x # p] (c # inner @ (x # p) @ rest) = None" by simp
  with Cons.IH[OF i'] show ?case by simp
qed

lemma takeWhile_until: "x \<notin> set a \<Longrightarrow> takeWhile (\<lambda>y. y \<noteq> x) (a @ x # r) = a"
  by (induction a) auto

lemma dropWhile_until: "x \<notin> set a \<Longrightarrow> dropWhile (\<lambda>y. y \<noteq> x) (a @ x # r) = x # r"
  by (induction a) auto

lemma progAt_block:
  assumes a: "62 \<notin> set attrText" "attrText = [] \<or> \<not> isWord (hd attrText)"
    and i: "\<not> occursCI closeTag inner"
  shows "progAt (openTag @ attrText @ [62] @ inner @ closeTag @ rest) = Some (attrText, inner, rest)"
proof -
  let ?t = "attrText @ [62] @ inner @ closeTag @ rest"
  have o: "ciPrefix (js ''<programme'') (openTag @ ?t)"
    unfolding openTag_def by (rule ciPrefix_refl_append)
  have d: "drop 10 (openTag @ ?t) = ?t" by (simp add: openTag_def js_def)
  have w: "\<not> (?t \<noteq> [] \<and> isWord (hd ?t))"
    using a(2) by (cases attrText) (auto simp: isWord_def isDigit_def)
  have tk: "takeWhile (\<lambda>x. x \<noteq> 62) ?t = attrText"
    using a(1) by (simp add: takeWhile_until)
  have dr: "dropWhile (\<lambda>x. x \<noteq> 62) ?t = 62 # inner @ closeTag @ rest"
    using a(1) by (simp add: dropWhile_until)
  have c: "closeTag = 60 # tl closeTag" by (simp add: closeTag_def js_def)
  have f: "\<forall>c\<in>set (tl closeTag). \<not> ciEq c 60"
    by (simp add: closeTag_def js_def ciEq_def upperUnit_def)
  have l: "lazyUntil [js ''</programme>''] (inner @ closeTag @ rest) = Some (inner, rest)"
    using lazyUntil_found[of "tl closeTag" 60 inner rest, OF f] i c
    by (simp add: closeTag_def[symmetric])
  show ?thesis
    by (simp only: progAt_def o d w tk dr l Let_def if_True if_False list.sel list.simps
        option.case prod.case simp_thms)
qed

lemma progAt_needs_open: "\<not> ciPrefix openTag s \<Longrightarrow> progAt s = None"
  by (simp add: progAt_def openTag_def)

lemma openTag_shape: "openTag = 60 # tl openTag" "\<forall>c\<in>set (tl openTag). \<not> ciEq c 60"
  by (simp_all add: openTag_def js_def ciEq_def upperUnit_def)

lemma progExec_block:
  assumes "wfBlock (gap, attrText, inner)"
  shows "progExec (gap @ openTag @ attrText @ [62] @ inner @ closeTag @ rest) =
         Some (attrText, inner, rest)"
proof -
  from assms have g: "\<not> occursCI (60 # tl openTag) gap"
    and a: "62 \<notin> set attrText" "attrText = [] \<or> \<not> isWord (hd attrText)"
    and i: "\<not> occursCI closeTag inner"
    using openTag_shape(1) by (simp_all add: wfBlock_def)
  define X where "X = attrText @ [62] @ inner @ closeTag @ rest"
  define ot where "ot = tl openTag"
  have e: "openTag @ X = 60 # (ot @ X)"
    using openTag_shape(1) unfolding ot_def by (metis append_Cons)
  have f: "\<And>s. \<not> ciPrefix (60 # ot) s \<Longrightarrow> progAt s = None"
    using progAt_needs_open openTag_shape(1) by (simp add: ot_def)
  have p: "\<forall>c\<in>set ot. \<not> ciEq c 60" using openTag_shape(2) by (simp add: ot_def)
  have g': "\<not> occursCI (60 # ot) gap" using g by (simp add: ot_def)
  have 1: "firstMatch progAt (gap @ 60 # (ot @ X)) = firstMatch progAt (60 # (ot @ X))"
    using f p g' by (rule firstMatch_skip)
  have "progAt (openTag @ X) = Some (attrText, inner, rest)"
    unfolding X_def by (rule progAt_block[OF a i])
  then have 2: "progAt (60 # (ot @ X)) = Some (attrText, inner, rest)" by (simp only: e)
  have 3: "firstMatch progAt (60 # (ot @ X)) = Some (attrText, inner, rest)"
    by (simp add: 2)
  have "progExec (gap @ openTag @ X) = Some (attrText, inner, rest)"
    unfolding progExec_def by (simp only: e 1 3)
  then show ?thesis by (simp add: X_def)
qed

lemma progExec_none: "\<not> occursCI openTag s \<Longrightarrow> progExec s = None"
  unfolding progExec_def using progAt_needs_open by (rule firstMatch_none)

lemma progSpans_docText:
  assumes "list_all wfBlock blocks" "\<not> occursCI openTag trailer"
  shows "progSpans (docText blocks trailer) = map (\<lambda>(gap, attrText, inner). (attrText, inner)) blocks"
  using assms(1)
proof (induction blocks)
  case Nil
  show ?case using progExec_none[OF assms(2)] by (simp add: progSpans.simps[of trailer])
next
  case (Cons b blocks)
  obtain gap attrText inner where b: "b = (gap, attrText, inner)" by (cases b)
  from Cons.prems b have w: "wfBlock (gap, attrText, inner)" and r: "list_all wfBlock blocks"
    by simp_all
  show ?case
    using progExec_block[OF w, of "docText blocks trailer"] Cons.IH[OF r]
    by (simp add: b progSpans.simps[of "gap @ openTag @ attrText @ 62 # inner @ closeTag @ docText blocks trailer"])
qed

lemma parseEPGProgrammes_docText:
  assumes "list_all wfBlock blocks" "\<not> occursCI openTag trailer"
  shows "parseEPGProgrammes tza (docText blocks trailer) =
         map (\<lambda>(gap, attrText, inner). mkProgramme tza attrText inner) blocks"
  by (simp add: parseEPGProgrammes_spans progSpans_docText[OF assms] case_prod_beta comp_def)

lemma elementAt_needs_open: "matchAny opens s = None \<Longrightarrow> elementAt opens closes s = None"
  by (simp add: elementAt_def)



lemma takeWhile_run: "list_all P k \<Longrightarrow> \<not> P x \<Longrightarrow> takeWhile P (k @ x # r) = k"
  by (induction k) auto

lemma dropWhile_run: "list_all P k \<Longrightarrow> \<not> P x \<Longrightarrow> dropWhile P (k @ x # r) = x # r"
  by (induction k) auto

lemma attrAt_parts:
  assumes "attrAt s = Some ((k, v), r)"
  shows "s = k @ [61, 34] @ v @ [34] @ r"
proof -
  define t where "t = dropWhile isNameChar s"
  define w where "w = drop 2 t"
  from assms have k: "k = takeWhile isNameChar s" and t2: "take 2 t = [61, 34]"
    and v: "v = takeWhile (\<lambda>x. x \<noteq> 34) w" and r: "dropWhile (\<lambda>x. x \<noteq> 34) w \<noteq> []"
    "r = tl (dropWhile (\<lambda>x. x \<noteq> 34) w)"
    by (auto simp: attrAt_def Let_def t_def w_def split: if_splits)
  have "hd (dropWhile (\<lambda>x. x \<noteq> 34) w) = 34" using hd_dropWhile[OF r(1)] by simp
  with r have "dropWhile (\<lambda>x. x \<noteq> 34) w = 34 # r"
    by (cases "dropWhile (\<lambda>x. x \<noteq> 34) w") auto
  then have "w = v @ 34 # r" using takeWhile_dropWhile_id[of "\<lambda>x. x \<noteq> 34" w] v by simp
  moreover have "t = take 2 t @ w" by (simp add: w_def)
  moreover have "s = k @ t" by (simp add: k t_def)
  ultimately show ?thesis using t2 by simp
qed

lemma occurs_prefix: "occurs pat (pat @ r)"
proof (cases "pat @ r")
  case Nil
  then show ?thesis by simp
next
  case (Cons a list)
  have "take (length pat) (pat @ r) = pat" by simp
  then show ?thesis by (simp add: Cons)
qed

lemma occurs_suffix: "occurs pat s \<Longrightarrow> occurs pat (pre @ s)"
  by (induction pre) auto

lemma attrMatches_occurs: "(k, v) \<in> set (attrMatches s) \<Longrightarrow> occurs (k @ [61, 34]) s"
proof (induction s rule: attrMatches.induct)
  case 1
  then show ?case by simp
next
  case (2 c cs)
  show ?case
  proof (cases "attrAt (c # cs)")
    case None
    with 2 have "occurs (k @ [61, 34]) cs" by simp
    then show ?thesis by simp
  next
    case (Some m)
    obtain k' v' r where m: "m = ((k', v'), r)" by (cases m) auto
    from attrAt_parts[OF Some[unfolded m]] have s: "c # cs = k' @ [61, 34] @ v' @ [34] @ r" .
    from "2.prems" Some m have "(k, v) = (k', v') \<or> (k, v) \<in> set (attrMatches r)" by simp
    then show ?thesis
    proof
      assume "(k, v) = (k', v')"
      then have "c # cs = (k @ [61, 34]) @ v' @ [34] @ r" using s by simp
      then show ?thesis using occurs_prefix[of "k @ [61, 34]" "v' @ [34] @ r"] by simp
    next
      assume "(k, v) \<in> set (attrMatches r)"
      with "2.IH"(2)[OF Some[unfolded m] refl] have "occurs (k @ [61, 34]) r" by simp
      then have "occurs (k @ [61, 34]) ((k' @ [61, 34] @ v' @ [34]) @ r)" by (rule occurs_suffix)
      then show ?thesis using s by simp
    qed
  qed
qed

lemma foldl_setProperty: "foldl setProperty m0 es = m0 ++ map_of (rev es)"
proof (induction es arbitrary: m0)
  case Nil
  show ?case by simp
next
  case (Cons e es)
  obtain k v where e: "e = (k, v)" by (cases e)
  have "foldl setProperty m0 (e # es) = foldl setProperty (m0(k \<mapsto> v)) es"
    by (simp add: e setProperty_def)
  also have "\<dots> = (m0(k \<mapsto> v)) ++ map_of (rev es)" by (rule Cons.IH)
  also have "\<dots> = m0 ++ map_of (rev es @ [(k, v)])"
    by (rule ext) (simp add: map_add_def split: option.split)
  also have "\<dots> = m0 ++ map_of (rev (e # es))" by (simp add: e)
  finally show ?case .
qed

lemma fromEntries_map_of: "fromEntries es = map_of (rev es)"
  by (simp add: fromEntries_def foldl_setProperty)

lemma fromEntries_None: "k \<notin> fst ` set es \<Longrightarrow> fromEntries es k = None"
  by (simp add: fromEntries_map_of map_of_eq_None_iff)

lemma fromEntries_distinct:
  "distinct (map fst es) \<Longrightarrow> (k, v) \<in> set es \<Longrightarrow> fromEntries es k = Some v"
  by (simp add: fromEntries_map_of distinct_rev rev_map[symmetric] map_of_is_SomeI)

lemma attrOr_missing: "\<not> occurs (name @ [61, 34]) attrText \<Longrightarrow> attrOr attrText name = []"
proof -
  assume n: "\<not> occurs (name @ [61, 34]) attrText"
  have "name \<notin> fst ` set (attrMatches attrText)"
  proof
    assume "name \<in> fst ` set (attrMatches attrText)"
    then obtain v where "(name, v) \<in> set (attrMatches attrText)" by auto
    from attrMatches_occurs[OF this] n show False by simp
  qed
  then show ?thesis by (simp add: attrOr_def fromEntries_None)
qed

lemma attrMatches_skip:
  "list_all (\<lambda>c. \<not> isNameChar c) ws \<Longrightarrow> attrMatches (ws @ s) = attrMatches s"
proof (induction ws)
  case Nil
  show ?case by simp
next
  case (Cons c ws)
  then have "attrAt (c # ws @ s) = None" by (simp add: attrAt_def)
  with Cons show ?case by simp
qed

lemma attrAt_attr:
  assumes "name \<noteq> []" "list_all isNameChar name" "34 \<notin> set val"
  shows "attrAt (name @ [61, 34] @ val @ [34] @ r) = Some ((name, val), r)"
proof -
  have e: "\<not> isNameChar 61" by (simp add: isNameChar_def isWord_def isDigit_def)
  have tk: "takeWhile isNameChar (name @ 61 # 34 # val @ 34 # r) = name"
    using assms(2) e by (rule takeWhile_run)
  have dr: "dropWhile isNameChar (name @ 61 # 34 # val @ 34 # r) = 61 # 34 # val @ 34 # r"
    using assms(2) e by (rule dropWhile_run)
  show ?thesis
    using assms(1,3) by (simp add: attrAt_def tk dr Let_def takeWhile_until dropWhile_until)
qed

lemma attrMatches_attrsText:
  assumes "list_all wfAttr attrs" "list_all (\<lambda>c. \<not> isNameChar c) trailer"
  shows "attrMatches (attrsText attrs @ trailer) = map (\<lambda>(ws, name, val). (name, val)) attrs"
  using assms(1)
proof (induction attrs)
  case Nil
  show ?case using attrMatches_skip[OF assms(2), of "[]"] by simp
next
  case (Cons a attrs)
  obtain ws name val where a: "a = (ws, name, val)" by (cases a)
  from Cons.prems a have wa: "wfAttr (ws, name, val)" and r: "list_all wfAttr attrs"
    by simp_all
  from wa have w: "list_all (\<lambda>c. \<not> isNameChar c) ws" "name \<noteq> []"
    "list_all isNameChar name" "34 \<notin> set val"
    by (simp_all add: wfAttr_def)
  let ?r = "attrsText attrs @ trailer"
  obtain c cs where n: "name = c # cs" using w(2) by (cases name) auto
  have "attrMatches (name @ [61, 34] @ val @ [34] @ ?r) = (name, val) # attrMatches ?r"
    using attrAt_attr[OF w(2-4), of ?r] by (simp add: n)
  then have "attrMatches (ws @ name @ [61, 34] @ val @ [34] @ ?r) = (name, val) # attrMatches ?r"
    using attrMatches_skip[OF w(1)] by simp
  with Cons.IH[OF r] show ?case by (simp add: a)
qed

lemma attrOr_verbatim:
  assumes "list_all wfAttr attrs" "list_all (\<lambda>c. \<not> isNameChar c) trailer"
    and "distinct (map (\<lambda>(ws, name, val). name) attrs)" "(ws, name, val) \<in> set attrs"
  shows "attrOr (attrsText attrs @ trailer) name = val"
proof -
  let ?es = "map (\<lambda>(ws, name, val). (name, val)) attrs"
  have h: "map fst ?es = map (\<lambda>(ws, name, val). name) attrs" by (induction attrs) auto
  have d: "distinct (map fst ?es)" unfolding h by (rule assms(3))
  have m: "(name, val) \<in> set ?es" using assms(4) by force
  have "attrOr (attrsText attrs @ trailer) name =
        (case fromEntries ?es name of Some v \<Rightarrow> v | None \<Rightarrow> [])"
    unfolding attrOr_def attrMatches_attrsText[OF assms(1,2)] ..
  also have "\<dots> = val" unfolding fromEntries_distinct[OF d m] by simp
  finally show ?thesis .
qed

section \<open>ChannelGrouper\<close>

text \<open>
  A JavaScript \<^verbatim>\<open>Map\<close> keeps its keys in insertion order; setting an existing key
  keeps the key's place. It is modelled as an association list.
\<close>

type_synonym ('k, 'v) jsmap = "('k \<times> 'v) list"

definition mapHas :: "('k, 'v) jsmap \<Rightarrow> 'k \<Rightarrow> bool" where
  "mapHas m k = (map_of m k \<noteq> None)"

definition mapGet :: "('k, 'v) jsmap \<Rightarrow> 'k \<Rightarrow> 'v option" where
  "mapGet m k = map_of m k"

fun mapSet :: "('k, 'v) jsmap \<Rightarrow> 'k \<Rightarrow> 'v \<Rightarrow> ('k, 'v) jsmap" where
  "mapSet [] k v = [(k, v)]"
| "mapSet ((k', v') # m) k v = (if k' = k then (k, v) # m else (k', v') # mapSet m k v)"

text \<open>
  \<^verbatim>\<open>
  function groupByChannel(programmes) {
    const map = new Map();
    for (const p of programmes) {
      const ch = p.channel || "unknown";
      if (!map.has(ch)) map.set(ch, []);
      map.get(ch).push(p);
    }
    return map;
  }
  \<close>
  \<^verbatim>\<open>map.get(ch)\<close> is an array at that point (lemma \<open>groupStep_get\<close>), so the \<open>None\<close>
  branch of \<open>groupStep\<close> is never taken.
\<close>

definition channelKey :: "programme \<Rightarrow> jsstring" where
  "channelKey p = (if channel p = [] then js ''unknown'' else channel p)"

definition groupStep ::
  "(jsstring, programme list) jsmap \<Rightarrow> programme \<Rightarrow> (jsstring, programme list) jsmap" where
  "groupStep m p =
     (let ch = channelKey p;
          m1 = (if \<not> mapHas m ch then mapSet m ch [] else m)
      in case mapGet m1 ch of
           Some ps \<Rightarrow> mapSet m1 ch (ps @ [p])
         | None \<Rightarrow> m1)"

definition groupByChannel :: "programme list \<Rightarrow> (jsstring, programme list) jsmap" where
  "groupByChannel programmes = foldl groupStep [] programmes"

text \<open>The elements of a list in the order of their first occurrence.\<close>

definition firstOccurrences :: "'a list \<Rightarrow> 'a list" where
  "firstOccurrences xs = rev (remdups (rev xs))"

section \<open>ImageResolver\<close>

definition DEFAULT_IMAGE :: jsstring where
  "DEFAULT_IMAGE =
     js ''https://upload.wikimedia.org/wikipedia/commons/thumb/4/47/TV_icon_black.svg/512px-TV_icon_black.svg.png''"

text \<open>
  An entry of \<^verbatim>\<open>channelScheduleData\<close>. The source reads \<^verbatim>\<open>item.title || ""\<close> and
  \<^verbatim>\<open>item.boxCoverImage || ""\<close>, so a missing property is the empty string.
\<close>

record scheduleItem =
  itemTitle :: jsstring
  boxCoverImage :: jsstring

text \<open>
  \<open>lc\<close> is \<^verbatim>\<open>String.prototype.toLowerCase\<close>.
  \<^verbatim>\<open>
  const map = new Map();
  for (const item of schedule) {
    const title = (item.title || "").trim().toLowerCase();
    const img = item.boxCoverImage || "";
    if (!title || !img) continue;
    if (!map.has(title)) { map.set(title, img); }
  }
  \<close>
\<close>

definition loadStep ::
  "lowerCase \<Rightarrow> (jsstring, jsstring) jsmap \<Rightarrow> scheduleItem \<Rightarrow> (jsstring, jsstring) jsmap" where
  "loadStep lc m item =
     (let t = lc (trim (itemTitle item));
          img = boxCoverImage item
      in if t = [] \<or> img = [] then m
         else if \<not> mapHas m t then mapSet m t img
         else m)"

definition buildTitleMap :: "lowerCase \<Rightarrow> scheduleItem list \<Rightarrow> (jsstring, jsstring) jsmap" where
  "buildTitleMap lc schedule = foldl (loadStep lc) [] schedule"

text \<open>
  What is known of \<open>lc\<close> where an example needs it: on a string of ASCII code units
  \<^verbatim>\<open>toLowerCase\<close> maps the letters A to Z to a to z and leaves every other code unit.
\<close>

definition asciiLowerCase :: "lowerCase \<Rightarrow> bool" where
  "asciiLowerCase lc \<longleftrightarrow> (\<forall>s. list_all (\<lambda>c. c < 128) s \<longrightarrow> lc s = map lowerUnit s)"

text \<open>
  The image files are no part of the program: \<open>db fileId\<close> says what the file
  \<^verbatim>\<open>data/<fileId>.json\<close> holds. It is missing, or it is not JSON, or it parses to an
  object whose \<^verbatim>\<open>channelScheduleData\<close> is the given array (the empty array when the
  property is no array).
\<close>

datatype imageFile = Missing | Malformed | Parsed "scheduleItem list"

type_synonym imageDb = "jsstring \<Rightarrow> imageFile"

definition loadImageMapFile ::
  "lowerCase \<Rightarrow> imageDb \<Rightarrow> jsstring \<Rightarrow> (jsstring, jsstring) jsmap option" where
  "loadImageMapFile lc db fileId =
     (case db fileId of
        Missing \<Rightarrow> None
      | Malformed \<Rightarrow> None
      | Parsed schedule \<Rightarrow> Some (buildTitleMap lc schedule))"

text \<open>
  \<^verbatim>\<open>const CHANNEL_IMAGE_ID_MAP = { "jio-559": 239 };\<close> The file id 239 names the file
  \<^verbatim>\<open>data/239.json\<close>. Channel ids that name a property of \<^verbatim>\<open>Object.prototype\<close> are
  outside this model.
\<close>

definition CHANNEL_IMAGE_ID_MAP :: "jsstring \<Rightarrow> jsstring option" where
  "CHANNEL_IMAGE_ID_MAP ch = (if ch = js ''jio-559'' then Some (js ''239'') else None)"

text \<open>
  The body of the inner loop of \<^verbatim>\<open>attachImagesToProgrammes\<close>:
  \<^verbatim>\<open>
  const key = (prog.title || "").trim().toLowerCase();
  let img = null;
  if (titleToImage && key && titleToImage.has(key)) { img = titleToImage.get(key); }
  if (!img) { img = DEFAULT_IMAGE; }
  prog.image = img;
  \<close>
\<close>

definition resolveImage ::
  "lowerCase \<Rightarrow> (jsstring, jsstring) jsmap option \<Rightarrow> jsstring \<Rightarrow> jsstring" where
  "resolveImage lc titleToImage t =
     (let key = lc (trim t);
          img = (case titleToImage of
                   None \<Rightarrow> None
                 | Some m \<Rightarrow> if key \<noteq> [] \<and> mapHas m key then mapGet m key else None)
      in case img of
           None \<Rightarrow> DEFAULT_IMAGE
         | Some u \<Rightarrow> if u = [] then DEFAULT_IMAGE else u)"

definition attachImage ::
  "lowerCase \<Rightarrow> (jsstring, jsstring) jsmap option \<Rightarrow> programme \<Rightarrow> programme" where
  "attachImage lc titleToImage prog =
     prog\<lparr>image := Some (resolveImage lc titleToImage (title prog))\<rparr>"

text \<open>
  The choice of the title map for a channel: the file id from the table, else the
  channel id itself when a file of that name exists; the map is taken from the cache or
  loaded and put into the cache. The cache is the state of the outer loop.
\<close>

type_synonym imageCache = "(jsstring, (jsstring, jsstring) jsmap option) jsmap"

definition titleMapFor ::
  "lowerCase \<Rightarrow> imageDb \<Rightarrow> imageCache \<Rightarrow> jsstring \<Rightarrow> (jsstring, jsstring) jsmap option \<times> imageCache" where
  "titleMapFor lc db cache epgChannelId =
     (let imageFileId =
            (case CHANNEL_IMAGE_ID_MAP epgChannelId of
               Some i \<Rightarrow> Some i
             | None \<Rightarrow> (case db epgChannelId of
                          Missing \<Rightarrow> None
                        | Malformed \<Rightarrow> Some epgChannelId
                        | Parsed schedule \<Rightarrow> Some epgChannelId))
      in case imageFileId of
           None \<Rightarrow> (None, cache)
         | Some fid \<Rightarrow>
             if fid = [] then (None, cache)
             else (case mapGet cache fid of
                     Some (Some m) \<Rightarrow> (Some m, cache)
                   | Some None \<Rightarrow>
                       (loadImageMapFile lc db fid, mapSet cache fid (loadImageMapFile lc db fid))
                   | None \<Rightarrow>
                       (loadImageMapFile lc db fid, mapSet cache fid (loadImageMapFile lc db fid))))"

fun attachLoop ::
  "lowerCase \<Rightarrow> imageDb \<Rightarrow> imageCache \<Rightarrow> (jsstring, programme list) jsmap \<Rightarrow>
   (jsstring, programme list) jsmap" where
  "attachLoop lc db cache [] = []"
| "attachLoop lc db cache ((ch, programmes) # rest) =
     (case titleMapFor lc db cache ch of
        (titleToImage, cache') \<Rightarrow>
          (ch, map (attachImage lc titleToImage) programmes) # attachLoop lc db cache' rest)"

definition attachImagesToProgrammes ::
  "lowerCase \<Rightarrow> imageDb \<Rightarrow> (jsstring, programme list) jsmap \<Rightarrow> (jsstring, programme list) jsmap" where
  "attachImagesToProgrammes lc db byChannel = attachLoop lc db [] byChannel"

text \<open>
  The records that \<^verbatim>\<open>main\<close> writes, per channel: extraction, grouping, and in the
  script with images the attachment of the image.
\<close>

definition pipeline :: "localTZA \<Rightarrow> jsstring \<Rightarrow> (jsstring, programme list) jsmap" where
  "pipeline tza xml = groupByChannel (parseEPGProgrammes tza xml)"

definition pipelineWithImages ::
  "lowerCase \<Rightarrow> imageDb \<Rightarrow> localTZA \<Rightarrow> jsstring \<Rightarrow> (jsstring, programme list) jsmap" where
  "pipelineWithImages lc db tza xml =
     attachImagesToProgrammes lc db (groupByChannel (parseEPGProgrammes tza xml))"

subsection \<open>Facts about maps and grouping\<close>

lemma map_of_mapSet: "map_of (mapSet m k v) = (map_of m)(k \<mapsto> v)"
  by (induction m) (auto simp: fun_upd_twist)

lemma keys_mapSet:
  "map fst (mapSet m k v) = (if k \<in> set (map fst m) then map fst m else map fst m @ [k])"
proof (induction m)
  case Nil
  show ?case by simp
next
  case (Cons e m)
  obtain k' v' where e: "e = (k', v')" by (cases e)
  show ?case
  proof (cases "k' = k")
    case True
    then show ?thesis by (simp add: e)
  next
    case False
    with Cons show ?thesis by (simp add: e)
  qed
qed

lemma mapHas_keys: "mapHas m k \<longleftrightarrow> k \<in> set (map fst m)"
  by (simp add: mapHas_def map_of_eq_None_iff)

lemma groupStep_keys:
  "map fst (groupStep m p) =
     (if channelKey p \<in> set (map fst m) then map fst m else map fst m @ [channelKey p])"
proof (cases "mapHas m (channelKey p)")
  case True
  then obtain ps where "map_of m (channelKey p) = Some ps" by (auto simp: mapHas_def)
  with True show ?thesis
    by (simp add: groupStep_def Let_def mapGet_def keys_mapSet mapHas_keys)
next
  case False
  then show ?thesis
    by (simp add: groupStep_def Let_def mapGet_def map_of_mapSet keys_mapSet mapHas_keys)
qed

lemma groupStep_get:
  "map_of (groupStep m p) =
     (map_of m)(channelKey p \<mapsto>
        (case map_of m (channelKey p) of Some ps \<Rightarrow> ps | None \<Rightarrow> []) @ [p])"
proof (cases "mapHas m (channelKey p)")
  case True
  then obtain ps where "map_of m (channelKey p) = Some ps" by (auto simp: mapHas_def)
  with True show ?thesis
    by (simp add: groupStep_def Let_def mapGet_def map_of_mapSet)
next
  case False
  then have "map_of m (channelKey p) = None" by (simp add: mapHas_def)
  with False show ?thesis
    by (simp add: groupStep_def Let_def mapGet_def map_of_mapSet)
qed

lemma groupByChannel_snoc: "groupByChannel (ps @ [p]) = groupStep (groupByChannel ps) p"
  by (simp add: groupByChannel_def)

lemma firstOccurrences_snoc:
  "firstOccurrences (xs @ [x]) =
     (if x \<in> set xs then firstOccurrences xs else firstOccurrences xs @ [x])"
  by (simp add: firstOccurrences_def)

lemma set_firstOccurrences: "set (firstOccurrences xs) = set xs"
  by (simp add: firstOccurrences_def)

lemma groupByChannel_keys:
  "map fst (groupByChannel ps) = firstOccurrences (map channelKey ps)"
proof (induction ps rule: rev_induct)
  case Nil
  show ?case by (simp add: groupByChannel_def firstOccurrences_def)
next
  case (snoc p ps)
  then show ?case
    by (simp add: groupByChannel_snoc groupStep_keys firstOccurrences_snoc set_firstOccurrences)
qed

lemma filter_absent: "k \<notin> f ` set xs \<Longrightarrow> filter (\<lambda>x. f x = k) xs = []"
  by (induction xs) auto

lemma groupByChannel_bucket:
  "mapGet (groupByChannel ps) k =
     (if k \<in> set (map channelKey ps) then Some (filter (\<lambda>p. channelKey p = k) ps) else None)"
proof (induction ps rule: rev_induct)
  case Nil
  show ?case by (simp add: groupByChannel_def mapGet_def)
next
  case (snoc p ps)
  then show ?case
    by (auto simp: groupByChannel_snoc mapGet_def groupStep_get filter_absent)
qed

lemma groupByChannel_distinct: "distinct (map fst (groupByChannel ps))"
  by (simp add: groupByChannel_keys firstOccurrences_def)

subsection \<open>Facts about the title map and the pipeline\<close>

lemma set_mapSet: "set (mapSet m k v) \<subseteq> insert (k, v) (set m)"
  by (induction m) (auto split: if_splits)

lemma loadStep_nonempty:
  assumes "\<forall>(k, u)\<in>set m. k \<noteq> [] \<and> u \<noteq> []"
  shows "\<forall>(k, u)\<in>set (loadStep lc m item). k \<noteq> [] \<and> u \<noteq> []"
proof -
  let ?t = "lc (trim (itemTitle item))"
  show ?thesis
  proof (cases "?t = [] \<or> boxCoverImage item = [] \<or> mapHas m ?t")
    case True
    then have "loadStep lc m item = m" by (auto simp: loadStep_def Let_def)
    with assms show ?thesis by simp
  next
    case False
    then have l: "loadStep lc m item = mapSet m ?t (boxCoverImage item)"
      by (auto simp: loadStep_def Let_def)
    show ?thesis unfolding l using set_mapSet[of m ?t "boxCoverImage item"] assms False by auto
  qed
qed

lemma buildTitleMap_nonempty: "\<forall>(k, u)\<in>set (buildTitleMap lc schedule). k \<noteq> [] \<and> u \<noteq> []"
proof (induction schedule rule: rev_induct)
  case Nil
  show ?case by (simp add: buildTitleMap_def)
next
  case (snoc item schedule)
  have "buildTitleMap lc (schedule @ [item]) = loadStep lc (buildTitleMap lc schedule) item"
    by (simp add: buildTitleMap_def)
  with loadStep_nonempty[OF snoc] show ?case by simp
qed

lemma resolveImage_None: "resolveImage lc None t = DEFAULT_IMAGE"
  by (simp add: resolveImage_def)

lemma resolveImage_built:
  "resolveImage lc (Some (buildTitleMap lc schedule)) t =
     (case mapGet (buildTitleMap lc schedule) (lc (trim t)) of
        Some u \<Rightarrow> u
      | None \<Rightarrow> DEFAULT_IMAGE)"
proof (cases "mapGet (buildTitleMap lc schedule) (lc (trim t))")
  case None
  then show ?thesis by (simp add: resolveImage_def mapHas_def mapGet_def)
next
  case (Some u)
  then have "(lc (trim t), u) \<in> set (buildTitleMap lc schedule)"
    by (simp add: mapGet_def map_of_SomeD)
  with buildTitleMap_nonempty[of lc schedule] have "lc (trim t) \<noteq> []" "u \<noteq> []" by auto
  with Some show ?thesis by (simp add: resolveImage_def mapHas_def mapGet_def)
qed

lemma attachImage_raw:
  "startRaw (attachImage lc t p) = startRaw p" "stopRaw (attachImage lc t p) = stopRaw p"
  by (simp_all add: attachImage_def)

lemma attachLoop_bucket:
  "(ch, b') \<in> set (attachLoop lc db cache m) \<Longrightarrow>
     \<exists>b t. (ch, b) \<in> set m \<and> b' = map (attachImage lc t) b"
proof (induction m arbitrary: cache)
  case Nil
  then show ?case by simp
next
  case (Cons e m)
  obtain c ps where e: "e = (c, ps)" by (cases e)
  obtain t cache' where t: "titleMapFor lc db cache c = (t, cache')" by (cases "titleMapFor lc db cache c")
  from Cons.prems e t have "(ch, b') = (c, map (attachImage lc t) ps) \<or> (ch, b') \<in> set (attachLoop lc db cache' m)"
    by simp
  then show ?case
  proof
    assume "(ch, b') = (c, map (attachImage lc t) ps)"
    then show ?thesis using e by auto
  next
    assume "(ch, b') \<in> set (attachLoop lc db cache' m)"
    from Cons.IH[OF this] show ?thesis by auto
  qed
qed

lemma groupByChannel_members:
  assumes "(ch, b) \<in> set (groupByChannel ps)"
  shows "b = filter (\<lambda>p. channelKey p = ch) ps"
proof -
  have "map_of (groupByChannel ps) ch = Some b"
    using groupByChannel_distinct assms by (rule map_of_is_SomeI)
  then show ?thesis using groupByChannel_bucket[of ps ch]
    by (simp add: mapGet_def split: if_splits)
qed

lemma parse_member_span:
  assumes "p \<in> set (parseEPGProgrammes tza xml)"
  shows "\<exists>(a, i)\<in>set (progSpans xml). p = mkProgramme tza a i"
  using assms by (auto simp: parseEPGProgrammes_spans)

lemma mkProgramme_raw:
  "startRaw (mkProgramme tza a i) = attrOr a (js ''start'')"
  "stopRaw (mkProgramme tza a i) = attrOr a (js ''stop'')"
  "channel (mkProgramme tza a i) = attrOr a (js ''channel'')"
  by (simp_all add: mkProgramme_def)

lemma pipeline_raw:
  assumes "(ch, b) \<in> set (pipeline tza xml)" "p \<in> set b"
  shows "\<exists>(a, i)\<in>set (progSpans xml).
           startRaw p = attrOr a (js ''start'') \<and> stopRaw p = attrOr a (js ''stop'')"
proof -
  from assms(1) have "b = filter (\<lambda>p. channelKey p = ch) (parseEPGProgrammes tza xml)"
    unfolding pipeline_def by (rule groupByChannel_members)
  with assms(2) have "p \<in> set (parseEPGProgrammes tza xml)" by simp
  from parse_member_span[OF this] obtain a i
    where "(a, i) \<in> set (progSpans xml)" "p = mkProgramme tza a i" by auto
  then show ?thesis by (intro bexI[of _ "(a, i)"]) (simp_all add: mkProgramme_raw)
qed

lemma pipelineWithImages_raw:
  assumes "(ch, b') \<in> set (pipelineWithImages lc db tza xml)" "p' \<in> set b'"
  shows "\<exists>(a, i)\<in>set (progSpans xml).
           startRaw p' = attrOr a (js ''start'') \<and> stopRaw p' = attrOr a (js ''stop'')"
proof -
  from assms(1) obtain b t where b: "(ch, b) \<in> set (pipeline tza xml)"
    and b': "b' = map (attachImage lc t) b"
    unfolding pipelineWithImages_def attachImagesToProgrammes_def pipeline_def
    by (blast dest: attachLoop_bucket)
  from assms(2) b' obtain p where p: "p \<in> set b" "p' = attachImage lc t p" by auto
  from pipeline_raw[OF b p(1)] p(2) show ?thesis by (simp add: attachImage_raw)
qed


lemma asciiLowerCase_lowerLatin1: "asciiLowerCase lowerLatin1"
  by (simp add: asciiLowerCase_def lowerLatin1_def)

lemma resolveImage_miss:
  "mapGet m (lc (trim t)) = None \<Longrightarrow> resolveImage lc (Some m) t = DEFAULT_IMAGE"
  by (simp add: resolveImage_def mapHas_def mapGet_def)

lemma resolveImage_hit:
  "mapGet m (lc (trim t)) = Some u \<Longrightarrow> lc (trim t) \<noteq> [] \<Longrightarrow> u \<noteq> [] \<Longrightarrow>
     resolveImage lc (Some m) t = u"
  by (simp add: resolveImage_def mapHas_def mapGet_def)

lemma resolveImage_empty_title: "lc (trim t) = [] \<Longrightarrow> resolveImage lc idx t = DEFAULT_IMAGE"
  by (simp add: resolveImage_def split: option.splits)

lemma attachLoop_keys: "map fst (attachLoop lc db cache m) = map fst m"
  by (induction m arbitrary: cache) (auto split: prod.splits)

lemma attachLoop_images:
  "(ch, b') \<in> set (attachLoop lc db cache m) \<Longrightarrow> p' \<in> set b' \<Longrightarrow>
     \<exists>idx. image p' = Some (resolveImage lc idx (title p'))"
proof -
  assume a: "(ch, b') \<in> set (attachLoop lc db cache m)" and p: "p' \<in> set b'"
  from attachLoop_bucket[OF a] obtain b t where b: "b' = map (attachImage lc t) b" by blast
  with p obtain q where "p' = attachImage lc t q" by auto
  then have "image p' = Some (resolveImage lc t (title p'))" by (simp add: attachImage_def)
  then show ?thesis ..
qed
subsection \<open>Facts about well-formed programme elements\<close>

lemma isSpace_not_name: "isSpace c \<Longrightarrow> \<not> isNameChar c"
  by (auto simp: isSpace_def isNameChar_def isWord_def isDigit_def)

lemma isSpace_not_word: "isSpace c \<Longrightarrow> \<not> isWord c"
  using isSpace_not_name by (auto simp: isNameChar_def)

lemma isSpace_not_GT: "isSpace c \<Longrightarrow> c \<noteq> 62"
  by (auto simp: isSpace_def)

lemma isNameChar_not_GT: "isNameChar c \<Longrightarrow> c \<noteq> 62"
  by (auto simp: isNameChar_def isWord_def isDigit_def)

lemma wfElementAttr_wfAttr: "wfElementAttr a \<Longrightarrow> wfAttr a"
  by (cases a) (auto simp: wfElementAttr_def wfAttr_def list_all_iff isSpace_not_name)

lemma attrsText_no_GT: "list_all wfElementAttr attrs \<Longrightarrow> 62 \<notin> set (attrsText attrs)"
proof (induction attrs)
  case Nil
  show ?case by simp
next
  case (Cons a attrs)
  obtain ws name val where a: "a = (ws, name, val)" by (cases a)
  from Cons.prems have wa: "wfElementAttr a" and r: "list_all wfElementAttr attrs"
    by simp_all
  from wa have w: "list_all isSpace ws" "list_all isNameChar name" "62 \<notin> set val"
    unfolding a by (simp_all add: wfElementAttr_def)
  from w(1) have 1: "62 \<notin> set ws" using isSpace_not_GT by (auto simp: list_all_iff)
  from w(2) have 2: "62 \<notin> set name" using isNameChar_not_GT by (auto simp: list_all_iff)
  from Cons.IH[OF r] 1 2 w(3) show ?case by (simp add: a)
qed

lemma wfElement_wfBlock: "wfElement e \<Longrightarrow> wfBlock (elementBlock e)"
proof -
  assume w: "wfElement e"
  obtain gap attrs sp inner where e: "e = (gap, attrs, sp, inner)" by (cases e)
  from w e have g: "\<not> occursCI openTag gap" and a: "list_all wfElementAttr attrs"
    and s: "list_all isSpace sp" and i: "\<not> occursCI closeTag inner"
    by (simp_all add: wfElement_def)
  have 1: "62 \<notin> set (attrsText attrs @ sp)"
    using attrsText_no_GT[OF a] s isSpace_not_GT by (auto simp: list_all_iff)
  have 2: "attrsText attrs @ sp = [] \<or> \<not> isWord (hd (attrsText attrs @ sp))"
  proof (cases attrs)
    case Nil
    then show ?thesis using s isSpace_not_word by (cases sp) auto
  next
    case (Cons b bs)
    obtain ws name val where b: "b = (ws, name, val)" by (cases b)
    from a Cons have "wfElementAttr b" by simp
    then have "ws \<noteq> []" "list_all isSpace ws" unfolding b by (simp_all add: wfElementAttr_def)
    then have "\<not> isWord (hd ws)" using isSpace_not_word by (cases ws) auto
    moreover have "hd (attrsText attrs @ sp) = hd ws" using \<open>ws \<noteq> []\<close> Cons b by simp
    ultimately show ?thesis by simp
  qed
  show ?thesis unfolding e elementBlock_def wfBlock_def using g 1 2 i by simp
qed

lemma map_of_rev_distinct: "distinct (map fst es) \<Longrightarrow> map_of (rev es) = map_of es"
proof
  fix k
  assume d: "distinct (map fst es)"
  then have dr: "distinct (map fst (rev es))" by (simp add: distinct_rev rev_map[symmetric])
  show "map_of (rev es) k = map_of es k"
  proof (cases "map_of es k")
    case None
    then have "k \<notin> fst ` set es" by (simp add: map_of_eq_None_iff)
    then have "map_of (rev es) k = None" by (simp add: map_of_eq_None_iff)
    with None show ?thesis by simp
  next
    case (Some v)
    then have "(k, v) \<in> set (rev es)" by (simp add: map_of_SomeD)
    from map_of_is_SomeI[OF dr this] Some show ?thesis by simp
  qed
qed

lemma attrOr_element:
  assumes "wfElement (gap, attrs, sp, inner)"
  shows "attrOr (attrsText attrs @ sp) name = attrValue attrs name"
proof -
  let ?es = "map (\<lambda>(ws, name, val). (name, val)) attrs"
  from assms have a: "list_all wfElementAttr attrs"
    and d: "distinct (map (\<lambda>(ws, name, val). name) attrs)" and s: "list_all isSpace sp"
    by (simp_all add: wfElement_def)
  have wa: "list_all wfAttr attrs" using a wfElementAttr_wfAttr by (auto simp: list_all_iff)
  have sn: "list_all (\<lambda>c. \<not> isNameChar c) sp" using s isSpace_not_name by (auto simp: list_all_iff)
  have h: "map fst ?es = map (\<lambda>(ws, name, val). name) attrs" by (induction attrs) auto
  have de: "distinct (map fst ?es)" unfolding h by (rule d)
  have "attrOr (attrsText attrs @ sp) name =
        (case fromEntries ?es name of Some v \<Rightarrow> v | None \<Rightarrow> [])"
    unfolding attrOr_def attrMatches_attrsText[OF wa sn] ..
  also have "fromEntries ?es = map_of ?es"
    unfolding fromEntries_map_of using de by (rule map_of_rev_distinct)
  finally show ?thesis by (simp add: attrValue_def)
qed

lemma attrValue_present:
  assumes "distinct (map (\<lambda>(ws, name, val). name) attrs)" "(ws, name, val) \<in> set attrs"
  shows "attrValue attrs name = val"
proof -
  let ?es = "map (\<lambda>(ws, name, val). (name, val)) attrs"
  have h: "map fst ?es = map (\<lambda>(ws, name, val). name) attrs" by (induction attrs) auto
  have de: "distinct (map fst ?es)" unfolding h by (rule assms(1))
  have m: "(name, val) \<in> set ?es" using assms(2) by force
  from map_of_is_SomeI[OF de m] show ?thesis by (simp add: attrValue_def)
qed

lemma attrValue_absent:
  assumes "name \<notin> set (map (\<lambda>(ws, name, val). name) attrs)"
  shows "attrValue attrs name = []"
  using assms by (induction attrs) (auto simp: attrValue_def)

lemma parse_elements_raw:
  assumes "list_all wfElement els" "\<not> occursCI openTag trailer"
  shows "map (\<lambda>p. (startRaw p, stopRaw p))
           (parseEPGProgrammes tza (docText (map elementBlock els) trailer)) =
         map (\<lambda>(gap, attrs, sp, inner).
                (attrValue attrs (js ''start''), attrValue attrs (js ''stop''))) els"
proof -
  have wb: "list_all wfBlock (map elementBlock els)"
    using assms(1) wfElement_wfBlock by (auto simp: list_all_iff)
  have "map (\<lambda>p. (startRaw p, stopRaw p))
           (parseEPGProgrammes tza (docText (map elementBlock els) trailer)) =
        map (\<lambda>e. case elementBlock e of (gap, attrText, inner) \<Rightarrow>
               (attrOr attrText (js ''start''), attrOr attrText (js ''stop''))) els"
    unfolding parseEPGProgrammes_docText[OF wb assms(2)]
    by (simp add: mkProgramme_raw case_prod_beta comp_def)
  also have "\<dots> = map (\<lambda>(gap, attrs, sp, inner).
                (attrValue attrs (js ''start''), attrValue attrs (js ''stop''))) els"
  proof (rule map_cong[OF refl])
    fix e assume "e \<in> set els"
    with assms(1) have w: "wfElement e" by (simp add: list_all_iff)
    obtain gap attrs sp inner where e: "e = (gap, attrs, sp, inner)" by (cases e)
    show "(case elementBlock e of (gap, attrText, inner) \<Rightarrow>
               (attrOr attrText (js ''start''), attrOr attrText (js ''stop''))) =
          (case e of (gap, attrs, sp, inner) \<Rightarrow>
                (attrValue attrs (js ''start''), attrValue attrs (js ''stop'')))"
      using attrOr_element[OF w[unfolded e]] by (simp add: e elementBlock_def)
  qed
  finally show ?thesis .
qed

lemma attachLoop_raw:
  "map (\<lambda>(ch, b). (ch, map (\<lambda>p. (startRaw p, stopRaw p)) b)) (attachLoop lc db cache m) =
   map (\<lambda>(ch, b). (ch, map (\<lambda>p. (startRaw p, stopRaw p)) b)) m"
proof (induction m arbitrary: cache)
  case Nil
  show ?case by simp
next
  case (Cons e m)
  obtain c ps where e: "e = (c, ps)" by (cases e)
  obtain t cache' where t: "titleMapFor lc db cache c = (t, cache')"
    by (cases "titleMapFor lc db cache c")
  show ?case unfolding e by (simp add: t Cons.IH attachImage_raw comp_def)
qed

lemma pipelineWithImages_raw_eq:
  "map (\<lambda>(ch, b). (ch, map (\<lambda>p. (startRaw p, stopRaw p)) b)) (pipelineWithImages lc db tza xml) =
   map (\<lambda>(ch, b). (ch, map (\<lambda>p. (startRaw p, stopRaw p)) b)) (pipeline tza xml)"
  unfolding pipelineWithImages_def attachImagesToProgrammes_def pipeline_def
  by (rule attachLoop_raw)

lemma pipeline_bucket:
  "\<forall>(ch, b)\<in>set (pipeline tza xml). b = filter (\<lambda>p. channelKey p = ch) (parseEPGProgrammes tza xml)"
  unfolding pipeline_def using groupByChannel_members by blast

lemma parse_derived:
  "\<forall>p\<in>set (parseEPGProgrammes tza xml).
     start p = formatTimeIST tza (Some (startRaw p)) \<and> stop p = formatTimeIST tza (Some (stopRaw p))"
  by (auto simp: parseEPGProgrammes_spans mkProgramme_def)

section \<open>Claims about TagStripper\<close>

text \<open>
  Claim C6. \<open>Strip\<close> is idempotent: for every string \<open>x\<close>, stripping the stripped
  string changes nothing; and \<^verbatim>\<open>Strip("<b>Hello</b>  World")\<close> is \<^verbatim>\<open>"Hello World"\<close>.
\<close>

theorem C6_stripTags_idempotent:
  "stripTags (stripTags x) = stripTags x \<and>
   stripTags (js ''<b>Hello</b>  World'') = js ''Hello World''"
proof
  show "stripTags (stripTags x) = stripTags x" by (rule stripTags_fixed)
  show "stripTags (js ''<b>Hello</b>  World'') = js ''Hello World''"
    by (simp add: stripTags_def js_def tagAt_def trim_def isSpace_def)
qed

theorem C6_stripTags_idempotent_witness:
  "stripTags (js ''<i>a</i> <br/> b '') = js ''a b'' \<and>
   stripTags (stripTags (js ''<i>a</i> <br/> b '')) = js ''a b''"
proof -
  have v: "stripTags (js ''<i>a</i> <br/> b '') = js ''a b''"
    by (simp add: stripTags_def js_def tagAt_def trim_def isSpace_def)
  from C6_stripTags_idempotent[of "js ''<i>a</i> <br/> b ''"]
  have "stripTags (stripTags (js ''<i>a</i> <br/> b '')) = stripTags (js ''<i>a</i> <br/> b '')"
    by (rule conjunct1)
  with v show ?thesis by simp
qed

lemmas instant_eval =
  codeInstant_def instantOf_def js_def slice_def digitsToNumber_def MakeFullYear_def MakeDay_def
  MakeTime_def MakeDate_def DayFromYear_def DaysInYear_def daysBeforeMonth_def
  msPerDay_def msPerHour_def msPerMinute_def msPerSecond_def

section \<open>Claims about TimeCodec\<close>

text \<open>
  Claim C4. For a fixed 14-digit string and two explicit numeric offsets (each
  \<^verbatim>\<open>+HHMM\<close>, \<^verbatim>\<open>-HHMM\<close>, \<^verbatim>\<open>+HH:MM\<close> or \<^verbatim>\<open>-HH:MM\<close>, after optional white space), the
  two instants that \<open>Parse\<close> computes differ by exactly the difference of the offsets,
  in minutes.
\<close>

theorem C4_offset_difference:
  assumes "length dt = 14" "list_all isDigit dt"
    and "list_all isSpace sp" "list_all isSpace sp'"
    and "sg = 43 \<or> sg = 45" "isDigit ha" "isDigit hb" "isDigit ma" "isDigit mb"
        "tz = [sg, ha, hb, ma, mb] \<or> tz = [sg, ha, hb, 58, ma, mb]"
    and "sg' = 43 \<or> sg' = 45" "isDigit ha'" "isDigit hb'" "isDigit ma'" "isDigit mb'"
        "tz' = [sg', ha', hb', ma', mb'] \<or> tz' = [sg', ha', hb', 58, ma', mb']"
    and "trim raw = dt @ sp @ tz @ post" "trim raw' = dt @ sp' @ tz' @ post'"
  shows "\<exists>t t'. parseXmltvTime (Some raw) = Some (Num t) \<and>
                parseXmltvTime (Some raw') = Some (Num t') \<and>
                t - t' = (offsetOf sg' ha' hb' ma' mb' - offsetOf sg ha hb ma mb) * 60000"
proof -
  have a: "parseXmltvTime (Some raw) = Some (Num (codeInstant dt - offsetOf sg ha hb ma mb * 60000))"
    using assms(1,2,3,5-10,17) by (rule parse_offset)
  have b: "parseXmltvTime (Some raw') =
           Some (Num (codeInstant dt - offsetOf sg' ha' hb' ma' mb' * 60000))"
    using assms(1,2,4,11-16,18) by (rule parse_offset)
  show ?thesis
    by (intro exI[of _ "codeInstant dt - offsetOf sg ha hb ma mb * 60000"]
              exI[of _ "codeInstant dt - offsetOf sg' ha' hb' ma' mb' * 60000"] conjI a b)
       (simp add: algebra_simps)
qed

theorem C4_offset_difference_witness:
  "\<exists>t t'. parseXmltvTime (Some (js ''20240101120000 +0530'')) = Some (Num t) \<and>
           parseXmltvTime (Some (js ''20240101120000-08:00 x'')) = Some (Num t') \<and>
           t - t' = - 48600000"
  using C4_offset_difference[where dt = "js ''20240101120000''" and sp = "js '' ''" and sp' = "[]"
      and sg = 43 and ha = 48 and hb = 53 and ma = 51 and mb = 48 and tz = "js ''+0530''"
      and sg' = 45 and ha' = 48 and hb' = 56 and ma' = 48 and mb' = 48 and tz' = "js ''-08:00''"
      and raw = "js ''20240101120000 +0530''" and raw' = "js ''20240101120000-08:00 x''"
      and post = "[]" and post' = "js '' x''"]
  by (simp add: js_def isDigit_def isSpace_def trim_def offsetOf_def)

text \<open>
  Claim C5. \<open>Parse\<close> returns null on null and on the empty string;
  \<open>FormatOrPassthrough\<close> returns the empty string for empty input and the raw string,
  unchanged, for every input that \<open>Parse\<close> fails to parse, such as \<^verbatim>\<open>"garbage"\<close>. Both are
  total: no input raises an error.
\<close>

theorem C5_parse_failure_passthrough:
  "parseXmltvTime None = None \<and>
   parseXmltvTime (Some []) = None \<and>
   formatTimeIST tza None = [] \<and>
   formatTimeIST tza (Some []) = [] \<and>
   (parseXmltvTime (Some raw) = None \<longrightarrow> formatTimeIST tza (Some raw) = raw) \<and>
   parseXmltvTime (Some (js ''garbage'')) = None \<and>
   formatTimeIST tza (Some (js ''garbage'')) = js ''garbage''"
proof -
  have g: "parseXmltvTime (Some (js ''garbage'')) = None"
    by (simp add: parse_None_iff js_def trim_def isSpace_def)
  show ?thesis
    by (simp add: g formatTimeIST_def) (simp add: parseXmltvTime_def)
qed

theorem C5_parse_failure_passthrough_witness:
  "parseXmltvTime (Some (js ''2024-01-01 12:00'')) = None \<and>
   formatTimeIST hostUTC (Some (js ''2024-01-01 12:00'')) = js ''2024-01-01 12:00''"
proof -
  have p: "parseXmltvTime (Some (js ''2024-01-01 12:00'')) = None"
    by (simp add: parse_None_iff js_def trim_def isSpace_def isDigit_def)
  from C5_parse_failure_passthrough[of hostUTC "js ''2024-01-01 12:00''"] p
  show ?thesis by simp
qed

text \<open>
  Claim C10. For every input whose trimmed form begins with 14 digits, \<open>Parse\<close> returns
  a Date with a valid time value, whatever the digits are: the time value is
  \<open>codeInstant dt - tzShift rest\<close>, where \<open>codeInstant dt\<close> is \<open>MakeDate\<close> of \<open>MakeDay\<close> and
  \<open>MakeTime\<close> of the six digit fields as they stand, and it lies far inside the range of
  time values. \<open>Parse\<close> never returns an invalid Date, and it returns null only for the
  empty string and for a trimmed input that does not begin with 14 digits. Out-of-range
  fields are carried: twelve months are a year, the days of a month carry into the next
  month (from December into January of the next year), 24 hours are a day, 60 minutes an
  hour and 60 seconds a minute; and for fields in range the instant is the one that
  reads back as that year, month, day, hour, minute and second. Month 13 of 2024 is
  January 2025, 32 January is 1 February, month 00 is December of the year before, and
  hour 25 is 01:00 of the next day.
\<close>

theorem C10_out_of_range_fields_roll_over:
  "(length dt = 14 \<and> list_all isDigit dt \<and> trim raw = dt @ rest \<longrightarrow>
      parseXmltvTime (Some raw) = Some (Num (codeInstant dt - tzShift rest)) \<and>
      \<bar>codeInstant dt - tzShift rest\<bar> \<le> 254060000000000) \<and>
   codeInstant dt =
     MakeDate
       (MakeDay (MakeFullYear (digitsToNumber (slice dt 0 4)))
                (digitsToNumber (slice dt 4 6) - 1) (digitsToNumber (slice dt 6 8)))
       (MakeTime (digitsToNumber (slice dt 8 10)) (digitsToNumber (slice dt 10 12))
                 (digitsToNumber (slice dt 12 14)) 0) \<and>
   parseXmltvTime ts \<noteq> Some NaN \<and>
   (parseXmltvTime (Some raw) = None \<longleftrightarrow>
      raw = [] \<or> \<not> (14 \<le> length (trim raw) \<and> list_all isDigit (take 14 (trim raw)))) \<and>
   MakeDay y (m + 12) d = MakeDay (y + 1) m d \<and>
   (0 \<le> m \<and> m \<le> 11 \<longrightarrow>
      MakeDay y m (daysInMonth (if DaysInYear y = 366 then 1 else 0) m + d) = MakeDay y (m + 1) d) \<and>
   MakeDay y m (d + k) = MakeDay y m d + k \<and>
   MakeDate (MakeDay y m d) (MakeTime (h + 24) mi s ms) =
     MakeDate (MakeDay y m (d + 1)) (MakeTime h mi s ms) \<and>
   MakeTime h (mi + 60) s ms = MakeTime (h + 1) mi s ms \<and>
   MakeTime h mi (s + 60) ms = MakeTime h (mi + 1) s ms \<and>
   (0 \<le> m \<and> m \<le> 11 \<and> 1 \<le> d \<and> d \<le> daysInMonth (if DaysInYear y = 366 then 1 else 0) m \<and>
    0 \<le> h \<and> h \<le> 23 \<and> 0 \<le> mi \<and> mi \<le> 59 \<and> 0 \<le> s \<and> s \<le> 59 \<longrightarrow>
      YearFromTime (MakeDate (MakeDay y m d) (MakeTime h mi s 0)) = y \<and>
      MonthFromTime (MakeDate (MakeDay y m d) (MakeTime h mi s 0)) = m \<and>
      DateFromTime (MakeDate (MakeDay y m d) (MakeTime h mi s 0)) = d \<and>
      HourFromTime (MakeDate (MakeDay y m d) (MakeTime h mi s 0)) = h \<and>
      MinFromTime (MakeDate (MakeDay y m d) (MakeTime h mi s 0)) = mi \<and>
      SecFromTime (MakeDate (MakeDay y m d) (MakeTime h mi s 0)) = s) \<and>
   parseXmltvTime (Some (js ''20241301000000'')) = parseXmltvTime (Some (js ''20250101000000'')) \<and>
   parseXmltvTime (Some (js ''20240132000000'')) = parseXmltvTime (Some (js ''20240201000000'')) \<and>
   parseXmltvTime (Some (js ''20240001000000'')) = parseXmltvTime (Some (js ''20231201000000'')) \<and>
   parseXmltvTime (Some (js ''20240101250000'')) = parseXmltvTime (Some (js ''20240102010000'')) \<and>
   parseXmltvTime (Some (js ''20241301000000'')) = Some (Num 1735689600000)"
proof -
  have p: "parseXmltvTime (Some (js s)) = Some (Num n)"
    if "codeInstant (js s) = n" "length s = 14" "list_all isDigit (js s)" "trim (js s) = js s"
    for s n
  proof -
    have "trim (js s) = js s @ []" using that(4) by simp
    moreover have "length (js s) = 14" using that(2) by (simp add: js_def)
    ultimately show ?thesis
      using parse_no_offset[of "js s" "js s" "[]"] that(1,3) by (simp add: matchTz_Nil)
  qed
  have a: "codeInstant (js ''20241301000000'') = 1735689600000"
          "codeInstant (js ''20250101000000'') = 1735689600000"
          "codeInstant (js ''20240132000000'') = 1706745600000"
          "codeInstant (js ''20240201000000'') = 1706745600000"
          "codeInstant (js ''20240001000000'') = 1701388800000"
          "codeInstant (js ''20231201000000'') = 1701388800000"
          "codeInstant (js ''20240101250000'') = 1704157200000"
          "codeInstant (js ''20240102010000'') = 1704157200000"
    by (simp_all add: instant_eval)
  have b: "parseXmltvTime (Some (js ''20241301000000'')) = Some (Num 1735689600000)"
          "parseXmltvTime (Some (js ''20250101000000'')) = Some (Num 1735689600000)"
          "parseXmltvTime (Some (js ''20240132000000'')) = Some (Num 1706745600000)"
          "parseXmltvTime (Some (js ''20240201000000'')) = Some (Num 1706745600000)"
          "parseXmltvTime (Some (js ''20240001000000'')) = Some (Num 1701388800000)"
          "parseXmltvTime (Some (js ''20231201000000'')) = Some (Num 1701388800000)"
          "parseXmltvTime (Some (js ''20240101250000'')) = Some (Num 1704157200000)"
          "parseXmltvTime (Some (js ''20240102010000'')) = Some (Num 1704157200000)"
    by ((rule p, rule a); simp add: js_def isDigit_def trim_def isSpace_def)+
  have e1: "parseXmltvTime (Some (js ''20241301000000'')) = parseXmltvTime (Some (js ''20250101000000''))"
    and e2: "parseXmltvTime (Some (js ''20240132000000'')) = parseXmltvTime (Some (js ''20240201000000''))"
    and e3: "parseXmltvTime (Some (js ''20240001000000'')) = parseXmltvTime (Some (js ''20231201000000''))"
    and e4: "parseXmltvTime (Some (js ''20240101250000'')) = parseXmltvTime (Some (js ''20240102010000''))"
    by (simp_all only: b)
  have g: "length dt = 14 \<and> list_all isDigit dt \<and> trim raw = dt @ rest \<longrightarrow>
      parseXmltvTime (Some raw) = Some (Num (codeInstant dt - tzShift rest)) \<and>
      \<bar>codeInstant dt - tzShift rest\<bar> \<le> 254060000000000"
    using parse_tzShift[of dt raw rest] by blast
  have c: "0 \<le> m \<and> m \<le> 11 \<longrightarrow>
      MakeDay y m (daysInMonth (if DaysInYear y = 366 then 1 else 0) m + d) = MakeDay y (m + 1) d"
    using MakeDay_date_carry[of m y d] by blast
  have r: "0 \<le> m \<and> m \<le> 11 \<and> 1 \<le> d \<and> d \<le> daysInMonth (if DaysInYear y = 366 then 1 else 0) m \<and>
    0 \<le> h \<and> h \<le> 23 \<and> 0 \<le> mi \<and> mi \<le> 59 \<and> 0 \<le> s \<and> s \<le> 59 \<longrightarrow>
      YearFromTime (MakeDate (MakeDay y m d) (MakeTime h mi s 0)) = y \<and>
      MonthFromTime (MakeDate (MakeDay y m d) (MakeTime h mi s 0)) = m \<and>
      DateFromTime (MakeDate (MakeDay y m d) (MakeTime h mi s 0)) = d \<and>
      HourFromTime (MakeDate (MakeDay y m d) (MakeTime h mi s 0)) = h \<and>
      MinFromTime (MakeDate (MakeDay y m d) (MakeTime h mi s 0)) = mi \<and>
      SecFromTime (MakeDate (MakeDay y m d) (MakeTime h mi s 0)) = s"
  proof (intro impI, elim conjE)
    assume m: "0 \<le> m" "m \<le> 11"
      and d: "1 \<le> d" "d \<le> daysInMonth (if DaysInYear y = 366 then 1 else 0) m"
      and t: "0 \<le> h" "h \<le> 23" "0 \<le> mi" "mi \<le> 59" "0 \<le> s" "s \<le> 59"
    have tm: "0 \<le> MakeTime h mi s 0" "MakeTime h mi s 0 < msPerDay"
      using MakeTime_in_day[OF t] by simp_all
    show "YearFromTime (MakeDate (MakeDay y m d) (MakeTime h mi s 0)) = y \<and>
      MonthFromTime (MakeDate (MakeDay y m d) (MakeTime h mi s 0)) = m \<and>
      DateFromTime (MakeDate (MakeDay y m d) (MakeTime h mi s 0)) = d \<and>
      HourFromTime (MakeDate (MakeDay y m d) (MakeTime h mi s 0)) = h \<and>
      MinFromTime (MakeDate (MakeDay y m d) (MakeTime h mi s 0)) = mi \<and>
      SecFromTime (MakeDate (MakeDay y m d) (MakeTime h mi s 0)) = s"
      by (intro conjI date_getters[OF m d tm] time_getters[OF t])
  qed
  show ?thesis
    by (intro conjI g codeInstant_def parse_never_invalid parse_None_iff MakeDay_month_carry c
        MakeDay_date_add MakeDate_hour_carry MakeTime_minute_carry MakeTime_second_carry r
        e1 e2 e3 e4 b(1))
qed

theorem C10_out_of_range_fields_roll_over_witness:
  "parseXmltvTime (Some (js '' 20249932256199 +0530'')) = Some (Num 1964464359000) \<and>
   MakeDay 2024 1 (29 + 3) = MakeDay 2024 2 3 \<and>
   MakeDay 2024 11 (31 + 1) = MakeDay 2025 0 1 \<and>
   YearFromTime (MakeDate (MakeDay 2032 3 2) (MakeTime 2 2 39 0)) = 2032 \<and>
   MonthFromTime (MakeDate (MakeDay 2032 3 2) (MakeTime 2 2 39 0)) = 3 \<and>
   DateFromTime (MakeDate (MakeDay 2032 3 2) (MakeTime 2 2 39 0)) = 2 \<and>
   HourFromTime (MakeDate (MakeDay 2032 3 2) (MakeTime 2 2 39 0)) = 2 \<and>
   MakeDate (MakeDay 2032 3 2) (MakeTime 2 2 39 0) = codeInstant (js ''20249932256199'')"
proof -
  have h: "length (js ''20249932256199'') = 14 \<and> list_all isDigit (js ''20249932256199'') \<and>
        trim (js '' 20249932256199 +0530'') = js ''20249932256199'' @ js '' +0530''"
    by (simp add: js_def isDigit_def trim_def isSpace_def)
  have ci: "codeInstant (js ''20249932256199'') = 1964484159000"
    by (simp add: instant_eval)
  have mt: "matchTz (js '' +0530'') = Some (js ''+0530'')"
    using matchTz_offset[of "[32]" 43 "js ''0530''" "js ''+0530''"]
      matchOffset_plain[of 43 48 53 51 48 "[]"]
    by (simp add: js_def isSpace_def isDigit_def)
  have om: "offsetMinutes (js ''+0530'') = 330"
    using offsetMinutes_plain[of 48 53 51 48 43]
    by (simp add: js_def isDigit_def digitsToNumber_def)
  have tz: "tzShift (js '' +0530'') = 19800000"
    by (simp add: tzShift_def mt om) (simp add: js_def toUpperCase_def)
  have l: "DaysInYear 2024 = 366" "DaysInYear 2032 = 366"
    by (simp_all add: DaysInYear_def)
  have dm: "daysInMonth 1 1 = 29" "daysInMonth 1 11 = 31" "daysInMonth 1 3 = 30"
    by (simp_all add: daysInMonth_def)
  have mk: "MakeDate (MakeDay 2032 3 2) (MakeTime 2 2 39 0) = 1964484159000"
    by (simp add: MakeDate_def MakeDay_def MakeTime_def DayFromYear_def DaysInYear_def
        daysBeforeMonth_def msPerDay_def msPerHour_def msPerMinute_def msPerSecond_def)
  have 1: "parseXmltvTime (Some (js '' 20249932256199 +0530'')) = Some (Num 1964464359000)"
    using C10_out_of_range_fields_roll_over[of "js ''20249932256199''"
      "js '' 20249932256199 +0530''" "js '' +0530''"] h by (simp add: ci tz)
  have 2: "MakeDay 2024 1 (29 + 3) = MakeDay 2024 2 3"
    using C10_out_of_range_fields_roll_over[where y = 2024 and m = 1 and d = 3] l dm by simp
  have 3: "MakeDay 2024 11 (31 + 1) = MakeDay 2025 0 1"
    using C10_out_of_range_fields_roll_over[where y = 2024 and m = 11 and d = 1]
      C10_out_of_range_fields_roll_over[where y = 2024 and m = 0 and d = 1] l dm by simp
  have 4: "YearFromTime (MakeDate (MakeDay 2032 3 2) (MakeTime 2 2 39 0)) = 2032 \<and>
   MonthFromTime (MakeDate (MakeDay 2032 3 2) (MakeTime 2 2 39 0)) = 3 \<and>
   DateFromTime (MakeDate (MakeDay 2032 3 2) (MakeTime 2 2 39 0)) = 2 \<and>
   HourFromTime (MakeDate (MakeDay 2032 3 2) (MakeTime 2 2 39 0)) = 2"
    using C10_out_of_range_fields_roll_over[where y = 2032 and m = 3 and d = 2 and h = 2
        and mi = 2 and s = 39] l dm by simp
  from 1 2 3 4 mk ci show ?thesis by simp
qed

lemma codeInstant_instantOf:
  "99 < digitsToNumber (slice dt 0 4) \<Longrightarrow> codeInstant dt = instantOf dt"
  by (simp add: codeInstant_def instantOf_def MakeFullYear_def)

lemma parse_offset_instantOf:
  assumes "length dt = 14" "list_all isDigit dt" "99 < digitsToNumber (slice dt 0 4)"
    and "list_all isSpace sp"
    and "sg = 43 \<or> sg = 45" "isDigit ha" "isDigit hb" "isDigit ma" "isDigit mb"
        "tz = [sg, ha, hb, ma, mb] \<or> tz = [sg, ha, hb, 58, ma, mb]"
    and "trim raw = dt @ sp @ tz @ post"
  shows "parseXmltvTime (Some raw) = Some (Num (instantOf dt - offsetOf sg ha hb ma mb * 60000))"
  using parse_offset[OF assms(1,2,4-11)] codeInstant_instantOf[OF assms(3)] by simp

lemma parse_no_offset_instantOf:
  assumes "length dt = 14" "list_all isDigit dt" "99 < digitsToNumber (slice dt 0 4)"
    and "trim raw = dt @ rest"
    and "matchTz rest = None \<or> matchTz rest = Some [90] \<or> matchTz rest = Some [122]"
  shows "parseXmltvTime (Some raw) = Some (Num (instantOf dt))"
  using parse_no_offset[OF assms(1,2,4,5)] codeInstant_instantOf[OF assms(3)] by simp

text \<open>
  Claim C1. The claim: for a trimmed input of 14 digits and a numeric offset, \<open>Parse\<close>
  returns the instant of the digits read as UTC wall-clock time, minus the offset; with
  no designator or \<^verbatim>\<open>Z\<close>, the instant of the digits. The source does so for a year field
  of 0100 and more (\<open>parse_offset_instantOf\<close>, \<open>parse_no_offset_instantOf\<close>). It does
  not for a year field from 0000 to 0099, which \<^verbatim>\<open>Date.UTC\<close> reads as 1900 to 1999: the
  time stamp \<^verbatim>\<open>00500101000000 +0000\<close> is parsed to the instant of
  \<^verbatim>\<open>19500101000000 +0000\<close>, not to 1 January of the year 50.
\<close>

theorem C1_two_digit_year_divergence:
  "parseXmltvTime (Some (js ''00500101000000 +0000'')) = Some (Num (- 631152000000)) \<and>
   parseXmltvTime (Some (js ''19500101000000 +0000'')) = Some (Num (- 631152000000)) \<and>
   instantOf (js ''00500101000000'') - offsetOf 43 48 48 48 48 * 60000 = - 60589296000000"
proof -
  have p: "parseXmltvTime (Some (js s)) = Some (Num n)"
    if "trim (js s) = js d @ [32] @ [43, 48, 48, 48, 48] @ []" "length (js d) = 14"
       "list_all isDigit (js d)" "codeInstant (js d) = n"
    for s d n
    using parse_offset[OF that(2,3), of "[32]" 43 48 48 48 48 "[43, 48, 48, 48, 48]" "js s" "[]"]
      that(1,4) by (simp add: isSpace_def isDigit_def offsetOf_def)
  have a: "codeInstant (js ''00500101000000'') = - 631152000000"
          "codeInstant (js ''19500101000000'') = - 631152000000"
          "instantOf (js ''00500101000000'') = - 60589296000000"
    by (simp_all add: instant_eval)
  have b: "parseXmltvTime (Some (js ''00500101000000 +0000'')) = Some (Num (- 631152000000))"
    by (rule p[of _ "''00500101000000''"]) (simp_all add: a, simp_all add: js_def trim_def isSpace_def isDigit_def)
  have c: "parseXmltvTime (Some (js ''19500101000000 +0000'')) = Some (Num (- 631152000000))"
    by (rule p[of _ "''19500101000000''"]) (simp_all add: a, simp_all add: js_def trim_def isSpace_def isDigit_def)
  show ?thesis by (simp add: b c a offsetOf_def)
qed

lemma format_year_999:
  "formatTimeIST hostUTC (Some (js ''09990101000000Z'')) = js ''999-01-01 05:30:00 IST''"
proof -
  have dt: "length (js ''09990101000000'') = 14" "list_all isDigit (js ''09990101000000'')"
    by (simp_all add: js_def isDigit_def)
  have tr: "trim (js ''09990101000000Z'') = js ''09990101000000'' @ [90]"
    by (simp add: js_def trim_def isSpace_def)
  have ci: "codeInstant (js ''09990101000000'') = (- 30641760000000)"
    by (simp add: instant_eval)
  have p: "parseXmltvTime (Some (js ''09990101000000Z'')) = Some (Num (- 30641760000000))"
    using parse_no_offset[OF dt tr] matchTz_Z[of "[]" 90 "[]"] by (simp add: ci)
  have L: "LocalTime hostUTC (- 30641740200000) = (- 30641740200000)"
    by (simp add: LocalTime_def hostUTC_def hostKolkata_def)
  have y: "YearFromTime (- 30641740200000) = 999"
    by (simp add: YearFromTime_def Day_def msPerDay_def yearFromDay_def)
  have dwy: "DayWithinYear (- 30641740200000) = 0"
    by (simp add: DayWithinYear_def y Day_def msPerDay_def DayFromYear_def)
  have leap: "InLeapYear (- 30641740200000) = 0"
    by (simp add: InLeapYear_def y DaysInYear_def)
  have mo: "MonthFromTime (- 30641740200000) = 0"
    by (simp add: MonthFromTime_def dwy leap)
  have da: "DateFromTime (- 30641740200000) = 1"
    by (simp add: DateFromTime_def dwy leap mo)
  have hms: "HourFromTime (- 30641740200000) = 5" "MinFromTime (- 30641740200000) = 30" "SecFromTime (- 30641740200000) = 0"
    by (simp_all add: HourFromTime_def MinFromTime_def SecFromTime_def msPerHour_def
        msPerMinute_def msPerSecond_def)
  have str: "numberToString (Num 999) = js ''999''"
            "padStart2 (numberToString (Num 1)) = js ''01''"
            "padStart2 (numberToString (Num 1)) = js ''01''"
            "padStart2 (numberToString (Num 5)) = js ''05''"
            "padStart2 (numberToString (Num 30)) = js ''30''"
            "padStart2 (numberToString (Num 0)) = js ''00''"
    by (simp_all add: numberToString_def padStart2_def digitsOf.simps js_def)
  have "formatTimeIST hostUTC (Some (js ''09990101000000Z'')) =
        js ''999'' @ [45] @ js ''01'' @ [45] @ js ''01'' @ [32] @ js ''05'' @ [58] @
        js ''30'' @ [58] @ js ''00'' @ js '' IST''"
    using formatTimeIST_Num[OF p, of "hostUTC"] by (simp add: L y mo da hms str)
  then show ?thesis by (simp add: js_def)
qed

lemma format_year_50:
  "formatTimeIST hostUTC (Some (js ''00500101000000Z'')) = js ''1950-01-01 05:30:00 IST''"
proof -
  have dt: "length (js ''00500101000000'') = 14" "list_all isDigit (js ''00500101000000'')"
    by (simp_all add: js_def isDigit_def)
  have tr: "trim (js ''00500101000000Z'') = js ''00500101000000'' @ [90]"
    by (simp add: js_def trim_def isSpace_def)
  have ci: "codeInstant (js ''00500101000000'') = (- 631152000000)"
    by (simp add: instant_eval)
  have p: "parseXmltvTime (Some (js ''00500101000000Z'')) = Some (Num (- 631152000000))"
    using parse_no_offset[OF dt tr] matchTz_Z[of "[]" 90 "[]"] by (simp add: ci)
  have L: "LocalTime hostUTC (- 631132200000) = (- 631132200000)"
    by (simp add: LocalTime_def hostUTC_def hostKolkata_def)
  have y: "YearFromTime (- 631132200000) = 1950"
    by (simp add: YearFromTime_def Day_def msPerDay_def yearFromDay_def)
  have dwy: "DayWithinYear (- 631132200000) = 0"
    by (simp add: DayWithinYear_def y Day_def msPerDay_def DayFromYear_def)
  have leap: "InLeapYear (- 631132200000) = 0"
    by (simp add: InLeapYear_def y DaysInYear_def)
  have mo: "MonthFromTime (- 631132200000) = 0"
    by (simp add: MonthFromTime_def dwy leap)
  have da: "DateFromTime (- 631132200000) = 1"
    by (simp add: DateFromTime_def dwy leap mo)
  have hms: "HourFromTime (- 631132200000) = 5" "MinFromTime (- 631132200000) = 30" "SecFromTime (- 631132200000) = 0"
    by (simp_all add: HourFromTime_def MinFromTime_def SecFromTime_def msPerHour_def
        msPerMinute_def msPerSecond_def)
  have str: "numberToString (Num 1950) = js ''1950''"
            "padStart2 (numberToString (Num 1)) = js ''01''"
            "padStart2 (numberToString (Num 1)) = js ''01''"
            "padStart2 (numberToString (Num 5)) = js ''05''"
            "padStart2 (numberToString (Num 30)) = js ''30''"
            "padStart2 (numberToString (Num 0)) = js ''00''"
    by (simp_all add: numberToString_def padStart2_def digitsOf.simps js_def)
  have "formatTimeIST hostUTC (Some (js ''00500101000000Z'')) =
        js ''1950'' @ [45] @ js ''01'' @ [45] @ js ''01'' @ [32] @ js ''05'' @ [58] @
        js ''30'' @ [58] @ js ''00'' @ js '' IST''"
    using formatTimeIST_Num[OF p, of "hostUTC"] by (simp add: L y mo da hms str)
  then show ?thesis by (simp add: js_def)
qed

lemma format_host_utc:
  "formatTimeIST hostUTC (Some (js ''20240101120000Z'')) = js ''2024-01-01 17:30:00 IST''"
proof -
  have dt: "length (js ''20240101120000'') = 14" "list_all isDigit (js ''20240101120000'')"
    by (simp_all add: js_def isDigit_def)
  have tr: "trim (js ''20240101120000Z'') = js ''20240101120000'' @ [90]"
    by (simp add: js_def trim_def isSpace_def)
  have ci: "codeInstant (js ''20240101120000'') = 1704110400000"
    by (simp add: instant_eval)
  have p: "parseXmltvTime (Some (js ''20240101120000Z'')) = Some (Num 1704110400000)"
    using parse_no_offset[OF dt tr] matchTz_Z[of "[]" 90 "[]"] by (simp add: ci)
  have L: "LocalTime hostUTC 1704130200000 = 1704130200000"
    by (simp add: LocalTime_def hostUTC_def hostKolkata_def)
  have y: "YearFromTime 1704130200000 = 2024"
    by (simp add: YearFromTime_def Day_def msPerDay_def yearFromDay_def)
  have dwy: "DayWithinYear 1704130200000 = 0"
    by (simp add: DayWithinYear_def y Day_def msPerDay_def DayFromYear_def)
  have leap: "InLeapYear 1704130200000 = 1"
    by (simp add: InLeapYear_def y DaysInYear_def)
  have mo: "MonthFromTime 1704130200000 = 0"
    by (simp add: MonthFromTime_def dwy leap)
  have da: "DateFromTime 1704130200000 = 1"
    by (simp add: DateFromTime_def dwy leap mo)
  have hms: "HourFromTime 1704130200000 = 17" "MinFromTime 1704130200000 = 30" "SecFromTime 1704130200000 = 0"
    by (simp_all add: HourFromTime_def MinFromTime_def SecFromTime_def msPerHour_def
        msPerMinute_def msPerSecond_def)
  have str: "numberToString (Num 2024) = js ''2024''"
            "padStart2 (numberToString (Num 1)) = js ''01''"
            "padStart2 (numberToString (Num 1)) = js ''01''"
            "padStart2 (numberToString (Num 17)) = js ''17''"
            "padStart2 (numberToString (Num 30)) = js ''30''"
            "padStart2 (numberToString (Num 0)) = js ''00''"
    by (simp_all add: numberToString_def padStart2_def digitsOf.simps js_def)
  have "formatTimeIST hostUTC (Some (js ''20240101120000Z'')) =
        js ''2024'' @ [45] @ js ''01'' @ [45] @ js ''01'' @ [32] @ js ''17'' @ [58] @
        js ''30'' @ [58] @ js ''00'' @ js '' IST''"
    using formatTimeIST_Num[OF p, of "hostUTC"] by (simp add: L y mo da hms str)
  then show ?thesis by (simp add: js_def)
qed

lemma format_host_kolkata:
  "formatTimeIST hostKolkata (Some (js ''20240101120000Z'')) = js ''2024-01-01 23:00:00 IST''"
proof -
  have dt: "length (js ''20240101120000'') = 14" "list_all isDigit (js ''20240101120000'')"
    by (simp_all add: js_def isDigit_def)
  have tr: "trim (js ''20240101120000Z'') = js ''20240101120000'' @ [90]"
    by (simp add: js_def trim_def isSpace_def)
  have ci: "codeInstant (js ''20240101120000'') = 1704110400000"
    by (simp add: instant_eval)
  have p: "parseXmltvTime (Some (js ''20240101120000Z'')) = Some (Num 1704110400000)"
    using parse_no_offset[OF dt tr] matchTz_Z[of "[]" 90 "[]"] by (simp add: ci)
  have L: "LocalTime hostKolkata 1704130200000 = 1704150000000"
    by (simp add: LocalTime_def hostUTC_def hostKolkata_def)
  have y: "YearFromTime 1704150000000 = 2024"
    by (simp add: YearFromTime_def Day_def msPerDay_def yearFromDay_def)
  have dwy: "DayWithinYear 1704150000000 = 0"
    by (simp add: DayWithinYear_def y Day_def msPerDay_def DayFromYear_def)
  have leap: "InLeapYear 1704150000000 = 1"
    by (simp add: InLeapYear_def y DaysInYear_def)
  have mo: "MonthFromTime 1704150000000 = 0"
    by (simp add: MonthFromTime_def dwy leap)
  have da: "DateFromTime 1704150000000 = 1"
    by (simp add: DateFromTime_def dwy leap mo)
  have hms: "HourFromTime 1704150000000 = 23" "MinFromTime 1704150000000 = 0" "SecFromTime 1704150000000 = 0"
    by (simp_all add: HourFromTime_def MinFromTime_def SecFromTime_def msPerHour_def
        msPerMinute_def msPerSecond_def)
  have str: "numberToString (Num 2024) = js ''2024''"
            "padStart2 (numberToString (Num 1)) = js ''01''"
            "padStart2 (numberToString (Num 1)) = js ''01''"
            "padStart2 (numberToString (Num 23)) = js ''23''"
            "padStart2 (numberToString (Num 0)) = js ''00''"
            "padStart2 (numberToString (Num 0)) = js ''00''"
    by (simp_all add: numberToString_def padStart2_def digitsOf.simps js_def)
  have "formatTimeIST hostKolkata (Some (js ''20240101120000Z'')) =
        js ''2024'' @ [45] @ js ''01'' @ [45] @ js ''01'' @ [32] @ js ''23'' @ [58] @
        js ''00'' @ [58] @ js ''00'' @ js '' IST''"
    using formatTimeIST_Num[OF p, of "hostKolkata"] by (simp add: L y mo da hms str)
  then show ?thesis by (simp add: js_def)
qed


text \<open>
  Claim C3. The claim: for every valid 14-digit time stamp with a \<^verbatim>\<open>Z\<close> suffix, \<open>Parse\<close>
  and then \<open>Format\<close> give \<^verbatim>\<open>YYYY-MM-DD HH:MM:SS IST\<close>, zero-padded, showing the wall
  clock five and a half hours after the UTC wall clock of the digits. On a host in UTC
  and for a year of four significant digits the source does so:
  \<^verbatim>\<open>20240101120000Z\<close> gives \<^verbatim>\<open>2024-01-01 17:30:00 IST\<close>. It does not in three cases.
  The year is printed without padding, so \<^verbatim>\<open>09990101000000Z\<close> gives a three-digit
  year. A year from 0000 to 0099 is read as 1900 to 1999. And the fields are read with
  the getters of the host's local time, so on a host in Asia/Kolkata the same
  \<^verbatim>\<open>20240101120000Z\<close> gives 23:00:00, eleven hours after the UTC wall clock.
\<close>

theorem C3_format_divergence:
  "formatTimeIST hostUTC (Some (js ''20240101120000Z'')) = js ''2024-01-01 17:30:00 IST'' \<and>
   formatTimeIST hostUTC (Some (js ''09990101000000Z'')) = js ''999-01-01 05:30:00 IST'' \<and>
   formatTimeIST hostUTC (Some (js ''00500101000000Z'')) = js ''1950-01-01 05:30:00 IST'' \<and>
   formatTimeIST hostKolkata (Some (js ''20240101120000Z'')) = js ''2024-01-01 23:00:00 IST''"
  by (simp only: format_host_utc format_year_999 format_year_50 format_host_kolkata simp_thms)

section \<open>Claims about ProgrammeExtractor\<close>

lemma attrOr_one:
  assumes "list_all (\<lambda>c. \<not> isNameChar c) ws" "name \<noteq> []" "list_all isNameChar name"
    "34 \<notin> set val"
  shows "attrOr (ws @ name @ [61, 34] @ val @ [34]) name = val"
  using attrOr_verbatim[of "[(ws, name, val)]" "[]" ws name val] assms
  by (simp add: wfAttr_def)



section \<open>Claims about the pipeline\<close>

text \<open>
  Claim C8, as stated: for every programme that the pipeline emits, \<open>startRaw\<close> and
  \<open>stopRaw\<close> are the start and stop attribute of the element in the document, verbatim.
  This fails for documents whose opening tag the attribute pattern does not read as
  XML does. Each of the three documents below has one programme element with the start
  attribute \<^verbatim>\<open>20240101120000\<close>, and the programme emitted for it has the empty
  \<open>startRaw\<close>: in the first the value of an earlier attribute holds \<^verbatim>\<open>>\<close>, where
  \<^verbatim>\<open>[^>]*\<close> ends the opening tag; in the second there is white space around \<^verbatim>\<open>=\<close>; in
  the third the value is in single quotes (code unit 39).
\<close>

theorem C8_raw_fields_counterexample:
  "map startRaw (parseEPGProgrammes hostUTC
     (js ''<programme channel=\"a>b\" start=\"20240101120000\"></programme>'')) = [[]] \<and>
   map startRaw (parseEPGProgrammes hostUTC
     (js ''<programme start = \"20240101120000\"></programme>'')) = [[]] \<and>
   map startRaw (parseEPGProgrammes hostUTC
     (js ''<programme start='' @ [39] @ js ''20240101120000'' @ [39] @ js ''></programme>'')) = [[]]"
proof -
  have e: "\<not> occursCI openTag []"
    by (simp add: js_def openTag_def)
  have 1: "map startRaw (parseEPGProgrammes hostUTC
     (js ''<programme channel=\"a>b\" start=\"20240101120000\"></programme>'')) = [[]]"
  proof -
    let ?b = "([], js '' channel=\"a'', js ''b\" start=\"20240101120000\">'')"
    have x: "js ''<programme channel=\"a>b\" start=\"20240101120000\"></programme>'' = docText [?b] []"
      by (simp add: js_def openTag_def closeTag_def)
    have w: "list_all wfBlock [?b]"
      by (simp add: wfBlock_def js_def openTag_def closeTag_def isWord_def isDigit_def
          ciEq_def upperUnit_def)
    have n: "\<not> occurs (js ''start'' @ [61, 34]) (js '' channel=\"a'')"
      by (simp add: js_def)
    show ?thesis unfolding x parseEPGProgrammes_docText[OF w e]
      by (simp add: mkProgramme_raw attrOr_missing[OF n])
  qed
  have 2: "map startRaw (parseEPGProgrammes hostUTC
     (js ''<programme start = \"20240101120000\"></programme>'')) = [[]]"
  proof -
    let ?b = "([], js '' start = \"20240101120000\"'', [])"
    have x: "js ''<programme start = \"20240101120000\"></programme>'' = docText [?b] []"
      by (simp add: js_def openTag_def closeTag_def)
    have w: "list_all wfBlock [?b]"
      by (simp add: wfBlock_def js_def openTag_def closeTag_def isWord_def isDigit_def
          ciEq_def upperUnit_def)
    have n: "\<not> occurs (js ''start'' @ [61, 34]) (js '' start = \"20240101120000\"'')"
      by (simp add: js_def)
    show ?thesis unfolding x parseEPGProgrammes_docText[OF w e]
      by (simp add: mkProgramme_raw attrOr_missing[OF n])
  qed
  have 3: "map startRaw (parseEPGProgrammes hostUTC
     (js ''<programme start='' @ [39] @ js ''20240101120000'' @ [39] @ js ''></programme>'')) = [[]]"
  proof -
    let ?a = "js '' start='' @ [39] @ js ''20240101120000'' @ [39]"
    let ?b = "([], ?a, [])"
    have x: "js ''<programme start='' @ [39] @ js ''20240101120000'' @ [39] @ js ''></programme>'' =
             docText [?b] []"
      by (simp add: js_def openTag_def closeTag_def)
    have w: "list_all wfBlock [?b]"
      by (simp add: wfBlock_def js_def openTag_def closeTag_def isWord_def isDigit_def
          ciEq_def upperUnit_def)
    have n: "\<not> occurs (js ''start'' @ [61, 34]) ?a"
      by (simp add: js_def)
    have "startRaw (mkProgramme hostUTC ?a []) = []"
      unfolding mkProgramme_raw by (rule attrOr_missing[OF n])
    then show ?thesis unfolding x parseEPGProgrammes_docText[OF w e] by simp
  qed
  from 1 2 3 show ?thesis by (intro conjI)
qed

text \<open>
  Claim C8, amended. For a document of well-formed programme elements (the attributes
  of an opening tag written \<^verbatim>\<open>name="value"\<close> after white space, with distinct names of
  the code units \<^verbatim>\<open>[\w:\-]\<close> and values without \<^verbatim>\<open>"\<close> and \<^verbatim>\<open>>\<close>; no programme tag opening
  in the text between the elements or after them, no closing programme tag in a
  content), the extraction emits one programme per element, in the order of the
  document, whose \<open>startRaw\<close> and \<open>stopRaw\<close> are the values of the start and stop
  attributes of the element, letter for letter, and the empty string for an attribute
  that the element does not have, whatever these values are and whatever becomes of the
  derived \<open>start\<close> and \<open>stop\<close>. For every document, the attachment of images leaves the
  two fields of every programme of every channel as the grouping has them, a channel's
  bucket holds the extracted programmes of that channel, and the derived \<open>start\<close> and
  \<open>stop\<close> are computed from \<open>startRaw\<close> and \<open>stopRaw\<close>.
\<close>

theorem C8_raw_fields_verbatim:
  "(list_all wfElement els \<and> \<not> occursCI openTag trailer \<longrightarrow>
      map (\<lambda>p. (startRaw p, stopRaw p))
        (parseEPGProgrammes tza (docText (map elementBlock els) trailer)) =
      map (\<lambda>(gap, attrs, sp, inner).
             (attrValue attrs (js ''start''), attrValue attrs (js ''stop''))) els) \<and>
   (distinct (map (\<lambda>(ws, name, val). name) attrs) \<and> (ws, name, val) \<in> set attrs \<longrightarrow>
      attrValue attrs name = val) \<and>
   (name \<notin> set (map (\<lambda>(ws, name, val). name) attrs) \<longrightarrow> attrValue attrs name = []) \<and>
   map (\<lambda>(ch, b). (ch, map (\<lambda>p. (startRaw p, stopRaw p)) b)) (pipelineWithImages lc db tza xml) =
     map (\<lambda>(ch, b). (ch, map (\<lambda>p. (startRaw p, stopRaw p)) b)) (pipeline tza xml) \<and>
   (\<forall>(ch, b)\<in>set (pipeline tza xml).
      b = filter (\<lambda>p. channelKey p = ch) (parseEPGProgrammes tza xml)) \<and>
   (\<forall>p\<in>set (parseEPGProgrammes tza xml).
      start p = formatTimeIST tza (Some (startRaw p)) \<and>
      stop p = formatTimeIST tza (Some (stopRaw p)))"
proof -
  have 1: "list_all wfElement els \<and> \<not> occursCI openTag trailer \<longrightarrow>
      map (\<lambda>p. (startRaw p, stopRaw p))
        (parseEPGProgrammes tza (docText (map elementBlock els) trailer)) =
      map (\<lambda>(gap, attrs, sp, inner).
             (attrValue attrs (js ''start''), attrValue attrs (js ''stop''))) els"
    using parse_elements_raw[of els trailer tza] by blast
  have 2: "distinct (map (\<lambda>(ws, name, val). name) attrs) \<and> (ws, name, val) \<in> set attrs \<longrightarrow>
      attrValue attrs name = val"
    using attrValue_present[of attrs ws name val] by blast
  have 3: "name \<notin> set (map (\<lambda>(ws, name, val). name) attrs) \<longrightarrow> attrValue attrs name = []"
    using attrValue_absent[of name attrs] by blast
  show ?thesis
    by (intro conjI 1 2 3 pipelineWithImages_raw_eq pipeline_bucket parse_derived)
qed

theorem C8_raw_fields_verbatim_witness:
  "map (\<lambda>p. (startRaw p, stopRaw p))
     (parseEPGProgrammes hostUTC
        (js ''<programme start=\"not a time\" stop=\"20240101123000 +0530\" channel=\"c1\"></programme><programme channel=\"c2\" ></programme>'')) =
   [(js ''not a time'', js ''20240101123000 +0530''), ([], [])]"
proof -
  let ?a1 = "[(js '' '', js ''start'', js ''not a time''),
              (js '' '', js ''stop'', js ''20240101123000 +0530''),
              (js '' '', js ''channel'', js ''c1'')]"
  let ?a2 = "[(js '' '', js ''channel'', js ''c2'')]"
  let ?els = "[([], ?a1, [], []), ([], ?a2, js '' '', [])]"
  have x: "js ''<programme start=\"not a time\" stop=\"20240101123000 +0530\" channel=\"c1\"></programme><programme channel=\"c2\" ></programme>'' =
           docText (map elementBlock ?els) []"
    by (simp add: js_def openTag_def closeTag_def elementBlock_def)
  have w: "list_all wfElement ?els \<and> \<not> occursCI openTag []"
    by (simp add: wfElement_def wfElementAttr_def js_def openTag_def closeTag_def isSpace_def
        isNameChar_def isWord_def isDigit_def)
  have p: "attrValue ?a1 (js ''start'') = js ''not a time''"
    using C8_raw_fields_verbatim[where attrs = ?a1 and ws = "js '' ''" and name = "js ''start''"
        and val = "js ''not a time''"]
    by (simp add: js_def)
  have q: "attrValue ?a1 (js ''stop'') = js ''20240101123000 +0530''"
    using C8_raw_fields_verbatim[where attrs = ?a1 and ws = "js '' ''" and name = "js ''stop''"
        and val = "js ''20240101123000 +0530''"]
    by (simp add: js_def)
  have r: "attrValue ?a2 (js ''start'') = []" "attrValue ?a2 (js ''stop'') = []"
    using C8_raw_fields_verbatim[where attrs = ?a2 and name = "js ''start''"]
      C8_raw_fields_verbatim[where attrs = ?a2 and name = "js ''stop''"]
    by (simp_all add: js_def)
  note m = C8_raw_fields_verbatim[where els = ?els and trailer = "[]" and tza = hostUTC,
      THEN conjunct1, THEN mp, OF w]
  show ?thesis unfolding x using m by (simp add: p q r)
qed

section \<open>Claims about ChannelGrouper\<close>

text \<open>
  Claim C7. \<open>Group\<close> puts every programme whose channel is the empty string into the
  bucket \<^verbatim>\<open>unknown\<close>; it has one bucket per distinct channel id, in the order of first
  appearance; and a bucket holds the programmes of its channel in the order of
  extraction. For a document with two blocks of channel \<^verbatim>\<open>ch1\<close> and one of \<^verbatim>\<open>ch2\<close>
  the result has the two keys \<^verbatim>\<open>ch1\<close> and \<^verbatim>\<open>ch2\<close>, with 2 and 1 programmes.
\<close>

theorem C7_group_by_channel:
  "map fst (groupByChannel ps) = firstOccurrences (map channelKey ps) \<and>
   distinct (map fst (groupByChannel ps)) \<and>
   mapGet (groupByChannel ps) k =
     (if k \<in> set (map channelKey ps) then Some (filter (\<lambda>p. channelKey p = k) ps) else None) \<and>
   (channel p = [] \<longrightarrow> channelKey p = js ''unknown'') \<and>
   (channel p \<noteq> [] \<longrightarrow> channelKey p = channel p) \<and>
   map (\<lambda>(ch, b). (ch, length b))
     (groupByChannel (parseEPGProgrammes tza
        (js ''<programme channel=\"ch1\"></programme><programme channel=\"ch2\"></programme><programme channel=\"ch1\"></programme>''))) =
     [(js ''ch1'', 2), (js ''ch2'', 1)]"
proof -
  let ?b1 = "([], js '' channel=\"ch1\"'', [])"
  let ?b2 = "([], js '' channel=\"ch2\"'', [])"
  let ?p1 = "mkProgramme tza (js '' channel=\"ch1\"'') []"
  let ?p2 = "mkProgramme tza (js '' channel=\"ch2\"'') []"
  have x: "js ''<programme channel=\"ch1\"></programme><programme channel=\"ch2\"></programme><programme channel=\"ch1\"></programme>'' =
           docText [?b1, ?b2, ?b1] []"
    by (simp add: js_def openTag_def closeTag_def)
  have w: "list_all wfBlock [?b1, ?b2, ?b1]" "\<not> occursCI openTag []"
    by (simp_all add: wfBlock_def js_def openTag_def closeTag_def isWord_def isDigit_def)
  have e: "parseEPGProgrammes tza (docText [?b1, ?b2, ?b1] []) = [?p1, ?p2, ?p1]"
    using parseEPGProgrammes_docText[OF w, of tza] by simp
  have c1: "attrOr (js '' channel=\"ch1\"'') (js ''channel'') = js ''ch1''"
    using attrOr_verbatim[of "[(js '' '', js ''channel'', js ''ch1'')]" "[]" "js '' ''"
        "js ''channel''" "js ''ch1''"]
    by (simp add: wfAttr_def js_def isNameChar_def isWord_def isDigit_def)
  have c2: "attrOr (js '' channel=\"ch2\"'') (js ''channel'') = js ''ch2''"
    using attrOr_verbatim[of "[(js '' '', js ''channel'', js ''ch2'')]" "[]" "js '' ''"
        "js ''channel''" "js ''ch2''"]
    by (simp add: wfAttr_def js_def isNameChar_def isWord_def isDigit_def)
  have ne: "js ''ch1'' \<noteq> []" "js ''ch2'' \<noteq> []" "js ''ch1'' \<noteq> js ''ch2''" "js ''ch2'' \<noteq> js ''ch1''"
    by (simp_all add: js_def)
  have k: "channelKey ?p1 = js ''ch1''" "channelKey ?p2 = js ''ch2''"
    by (simp_all add: channelKey_def mkProgramme_raw c1 c2 ne)
  have g: "groupByChannel [?p1, ?p2, ?p1] = [(js ''ch1'', [?p1, ?p1]), (js ''ch2'', [?p2])]"
    by (simp add: groupByChannel_def groupStep_def k ne mapHas_def mapGet_def)
  have ex: "map (\<lambda>(ch, b). (ch, length b))
     (groupByChannel (parseEPGProgrammes tza
        (js ''<programme channel=\"ch1\"></programme><programme channel=\"ch2\"></programme><programme channel=\"ch1\"></programme>''))) =
     [(js ''ch1'', 2), (js ''ch2'', 1)]"
    unfolding x e g by simp
  have u: "channel p = [] \<longrightarrow> channelKey p = js ''unknown''"
          "channel p \<noteq> [] \<longrightarrow> channelKey p = channel p"
    by (simp_all add: channelKey_def)
  show ?thesis
    by (intro conjI groupByChannel_keys groupByChannel_distinct groupByChannel_bucket u ex)
qed

theorem C7_group_by_channel_witness:
  "channelKey (mkProgramme hostUTC [] []) = js ''unknown'' \<and>
   groupByChannel [mkProgramme hostUTC [] []] = [(js ''unknown'', [mkProgramme hostUTC [] []])]"
proof -
  have c: "channel (mkProgramme hostUTC [] []) = []"
    by (simp add: mkProgramme_raw attrOr_def fromEntries_def)
  with C7_group_by_channel[of "[mkProgramme hostUTC [] []]" "js ''unknown''" "mkProgramme hostUTC [] []"]
  have k: "channelKey (mkProgramme hostUTC [] []) = js ''unknown''" by simp
  have "groupByChannel [mkProgramme hostUTC [] []] = [(js ''unknown'', [mkProgramme hostUTC [] []])]"
    by (simp add: groupByChannel_def groupStep_def k mapHas_def mapGet_def)
  with k show ?thesis by simp
qed

section \<open>Claims about ImageResolver\<close>

text \<open>
  Claim C9. \<open>Resolve\<close> trims and lower-cases the title, looks it up in the channel's
  title index and returns the indexed URL on an exact match and the default URL
  otherwise; without an index it returns the default URL. This holds whatever the
  lower-casing \<open>lc\<close> of the host does to the title: the key is \<open>lc (trim t)\<close>, for an
  index that the loader builds (\<open>buildTitleMap\<close>) the result is the entry under that key
  or the default URL, for any index a key without entry gives the default URL and a
  non-empty key with a non-empty entry gives that entry, and the URL is what the
  programme gets as its image. For the index \<^verbatim>\<open>{"the show": "http://img/1.png"}\<close> the
  title \<^verbatim>\<open>"  The Show  "\<close> resolves to \<^verbatim>\<open>"http://img/1.png"\<close> and the title
  \<^verbatim>\<open>"Another Show"\<close> to the default URL, for every \<open>lc\<close> that lower-cases ASCII strings
  as \<^verbatim>\<open>toLowerCase\<close> does; the loader builds that index from the one-entry schedule.
\<close>

theorem C9_image_lookup:
  "resolveImage lc None t = DEFAULT_IMAGE \<and>
   resolveImage lc (Some (buildTitleMap lc schedule)) t =
     (case mapGet (buildTitleMap lc schedule) (lc (trim t)) of
        Some u \<Rightarrow> u
      | None \<Rightarrow> DEFAULT_IMAGE) \<and>
   (mapGet m (lc (trim t)) = None \<longrightarrow> resolveImage lc (Some m) t = DEFAULT_IMAGE) \<and>
   (mapGet m (lc (trim t)) = Some u \<and> lc (trim t) \<noteq> [] \<and> u \<noteq> [] \<longrightarrow>
      resolveImage lc (Some m) t = u) \<and>
   image (attachImage lc idx p) = Some (resolveImage lc idx (title p)) \<and>
   (asciiLowerCase lc \<longrightarrow>
      buildTitleMap lc [\<lparr>itemTitle = js ''the show'', boxCoverImage = js ''http://img/1.png''\<rparr>] =
        [(js ''the show'', js ''http://img/1.png'')] \<and>
      resolveImage lc (Some [(js ''the show'', js ''http://img/1.png'')]) (js ''  The Show  '') =
        js ''http://img/1.png'' \<and>
      resolveImage lc (Some [(js ''the show'', js ''http://img/1.png'')]) (js ''Another Show'') =
        DEFAULT_IMAGE)"
proof -
  have ex: "buildTitleMap lc [\<lparr>itemTitle = js ''the show'', boxCoverImage = js ''http://img/1.png''\<rparr>] =
        [(js ''the show'', js ''http://img/1.png'')] \<and>
      resolveImage lc (Some [(js ''the show'', js ''http://img/1.png'')]) (js ''  The Show  '') =
        js ''http://img/1.png'' \<and>
      resolveImage lc (Some [(js ''the show'', js ''http://img/1.png'')]) (js ''Another Show'') =
        DEFAULT_IMAGE" if a: "asciiLowerCase lc"
  proof -
    have t1: "trim (js ''  The Show  '') = js ''The Show''"
      and t2: "trim (js ''Another Show'') = js ''Another Show''"
      and t3: "trim (js ''the show'') = js ''the show''"
      by (simp_all add: js_def trim_def isSpace_def)
    have l1: "lc (js ''The Show'') = map lowerUnit (js ''The Show'')"
      and l2: "lc (js ''Another Show'') = map lowerUnit (js ''Another Show'')"
      and l3: "lc (js ''the show'') = map lowerUnit (js ''the show'')"
      using a by (simp_all add: asciiLowerCase_def js_def)
    have k1: "lc (trim (js ''  The Show  '')) = js ''the show''"
      unfolding t1 l1 by (simp add: js_def lowerUnit_def)
    have k2: "lc (trim (js ''Another Show'')) = js ''another show''"
      unfolding t2 l2 by (simp add: js_def lowerUnit_def)
    have k3: "lc (trim (js ''the show'')) = js ''the show''"
      unfolding t3 l3 by (simp add: js_def lowerUnit_def)
    have ne: "js ''the show'' \<noteq> []" "js ''http://img/1.png'' \<noteq> []"
      "js ''another show'' \<noteq> js ''the show''"
      by (simp_all add: js_def)
    have b: "buildTitleMap lc
               [\<lparr>itemTitle = js ''the show'', boxCoverImage = js ''http://img/1.png''\<rparr>] =
             [(js ''the show'', js ''http://img/1.png'')]"
      by (simp add: buildTitleMap_def loadStep_def k3 ne mapHas_def)
    have r1: "resolveImage lc (Some [(js ''the show'', js ''http://img/1.png'')])
                (js ''  The Show  '') = js ''http://img/1.png''"
      by (simp add: resolveImage_def k1 ne mapHas_def mapGet_def)
    have r2: "resolveImage lc (Some [(js ''the show'', js ''http://img/1.png'')])
                (js ''Another Show'') = DEFAULT_IMAGE"
      by (simp add: resolveImage_def k2 ne mapHas_def mapGet_def)
    from b r1 r2 show ?thesis by (intro conjI)
  qed
  have u: "mapGet m (lc (trim t)) = None \<longrightarrow> resolveImage lc (Some m) t = DEFAULT_IMAGE"
    by (simp add: resolveImage_miss)
  have h: "mapGet m (lc (trim t)) = Some u \<and> lc (trim t) \<noteq> [] \<and> u \<noteq> [] \<longrightarrow>
      resolveImage lc (Some m) t = u"
    by (simp add: resolveImage_hit)
  have i: "image (attachImage lc idx p) = Some (resolveImage lc idx (title p))"
    by (simp add: attachImage_def)
  from ex have e: "asciiLowerCase lc \<longrightarrow>
      buildTitleMap lc [\<lparr>itemTitle = js ''the show'', boxCoverImage = js ''http://img/1.png''\<rparr>] =
        [(js ''the show'', js ''http://img/1.png'')] \<and>
      resolveImage lc (Some [(js ''the show'', js ''http://img/1.png'')]) (js ''  The Show  '') =
        js ''http://img/1.png'' \<and>
      resolveImage lc (Some [(js ''the show'', js ''http://img/1.png'')]) (js ''Another Show'') =
        DEFAULT_IMAGE" by (rule impI)
  show ?thesis
    by (intro conjI resolveImage_None resolveImage_built u h i e)
qed

theorem C9_image_lookup_witness:
  "asciiLowerCase lowerLatin1 \<and>
   mapGet [(js ''news'', js ''http://img/a.png'')] (lowerLatin1 (trim (js ''NEWS''))) =
     Some (js ''http://img/a.png'') \<and>
   mapGet [(js ''news'', js ''http://img/a.png'')] (lowerLatin1 (trim (js ''Sport''))) = None \<and>
   resolveImage lowerLatin1 (Some [(js ''news'', js ''http://img/a.png'')]) (js ''NEWS'') =
     js ''http://img/a.png'' \<and>
   resolveImage lowerLatin1 (Some [(js ''news'', js ''http://img/a.png'')]) (js ''Sport'') =
     DEFAULT_IMAGE \<and>
   resolveImage lowerLatin1 (Some [(js ''the show'', js ''http://img/1.png'')])
     (js ''  The Show  '') = js ''http://img/1.png'' \<and>
   resolveImage lowerLatin1
     (Some (buildTitleMap lowerLatin1
        [\<lparr>itemTitle = js '' News '', boxCoverImage = js ''http://img/a.png''\<rparr>,
         \<lparr>itemTitle = js ''news'', boxCoverImage = js ''http://img/b.png''\<rparr>]))
     (js ''NEWS'') = js ''http://img/a.png''"
proof -
  have k: "lowerLatin1 (trim (js ''NEWS'')) = js ''news''"
          "lowerLatin1 (trim (js '' News '')) = js ''news''"
          "lowerLatin1 (trim (js ''news'')) = js ''news''"
          "lowerLatin1 (trim (js ''Sport'')) = js ''sport''"
    by (simp_all add: js_def trim_def isSpace_def lowerLatin1_def lowerUnit_def)
  have ne: "js ''news'' \<noteq> []" "js ''http://img/a.png'' \<noteq> []" "js ''http://img/b.png'' \<noteq> []"
    "js ''sport'' \<noteq> js ''news''"
    by (simp_all add: js_def)
  have b: "buildTitleMap lowerLatin1
        [\<lparr>itemTitle = js '' News '', boxCoverImage = js ''http://img/a.png''\<rparr>,
         \<lparr>itemTitle = js ''news'', boxCoverImage = js ''http://img/b.png''\<rparr>] =
        [(js ''news'', js ''http://img/a.png'')]"
    by (simp add: buildTitleMap_def loadStep_def k ne mapHas_def)
  have g1: "mapGet [(js ''news'', js ''http://img/a.png'')] (lowerLatin1 (trim (js ''NEWS''))) =
     Some (js ''http://img/a.png'')"
    by (simp add: k mapGet_def)
  have g2: "mapGet [(js ''news'', js ''http://img/a.png'')] (lowerLatin1 (trim (js ''Sport''))) = None"
    by (simp add: k ne mapGet_def)
  have a: "asciiLowerCase lowerLatin1"
    by (simp add: asciiLowerCase_def lowerLatin1_def)
  note c1 = C9_image_lookup[of lowerLatin1 "js ''NEWS''"
      "[\<lparr>itemTitle = js '' News '', boxCoverImage = js ''http://img/a.png''\<rparr>,
        \<lparr>itemTitle = js ''news'', boxCoverImage = js ''http://img/b.png''\<rparr>]"
      "[(js ''news'', js ''http://img/a.png'')]" "js ''http://img/a.png''"]
  note c2 = C9_image_lookup[of lowerLatin1 "js ''Sport''" "[]"
      "[(js ''news'', js ''http://img/a.png'')]" "[]"]
  have r1: "resolveImage lowerLatin1 (Some [(js ''news'', js ''http://img/a.png'')]) (js ''NEWS'') =
     js ''http://img/a.png''"
    using c1 g1 k(1) ne by simp
  have r2: "resolveImage lowerLatin1 (Some [(js ''news'', js ''http://img/a.png'')]) (js ''Sport'') =
     DEFAULT_IMAGE"
    using c2 g2 by simp
  have r3: "resolveImage lowerLatin1 (Some [(js ''the show'', js ''http://img/1.png'')])
     (js ''  The Show  '') = js ''http://img/1.png''"
    using c1 a by simp
  have r4: "resolveImage lowerLatin1
     (Some (buildTitleMap lowerLatin1
        [\<lparr>itemTitle = js '' News '', boxCoverImage = js ''http://img/a.png''\<rparr>,
         \<lparr>itemTitle = js ''news'', boxCoverImage = js ''http://img/b.png''\<rparr>]))
     (js ''NEWS'') = js ''http://img/a.png''"
    using c1 by (simp add: b k mapGet_def)
  from a g1 g2 r1 r2 r3 r4 show ?thesis by (intro conjI)
qed

end
